theory Spec2Isabelle
  imports Main "HOL-Library.AList" "HOL-Library.Product_Lexorder"
begin

section \<open>Pipe geometry\<close>

text \<open>
  The solver of \<^verbatim>\<open>blind_search.py\<close>. Positions are pairs \<open>(r, c)\<close> of Python
  integers; a tile kind is the one-character string that keys \<^verbatim>\<open>PIPE_TYPES\<close>; a dict
  is an association list in insertion order whose keys are distinct, read with
  \<^const>\<open>map_of\<close> and written with \<^const>\<open>AList.update\<close> (an existing key keeps its
  place, as in Python). A missing key raises \<^verbatim>\<open>KeyError\<close>; popping from an empty
  heap raises \<^verbatim>\<open>IndexError\<close>.
\<close>

type_synonym position = "int \<times> int"

datatype error = KeyError | IndexError

definition PIPE_TYPES :: "string \<rightharpoonup> nat list list" where
  "PIPE_TYPES = map_of
     [(''l'', [[1, 3], [0, 2]]),
      (''v'', [[0, 1], [1, 2], [2, 3], [3, 0]]),
      (''t'', [[0, 1, 3], [0, 1, 2], [1, 2, 3], [0, 2, 3]]),
      (''c'', [[0, 1, 2, 3]]),
      (''e'', [[0], [1], [2], [3]]),
      (''n'', [[]])]"

definition DIRS :: "(int \<times> int) list" where
  "DIRS = [(-1, 0), (0, 1), (1, 0), (0, -1)]"

subsection \<open>Action and Tile\<close>

record action =
  pos :: position
  rotation :: int

record tile =
  type :: string
  rotation :: int

definition rotate :: "tile \<Rightarrow> int \<Rightarrow> tile" where
  "rotate self rot = \<lparr>type = type self, rotation = rot\<rparr>"

text \<open>
  \<^verbatim>\<open>variations[rot]\<close> with \<^verbatim>\<open>rot = rotation % len(variations)\<close>: Python's \<^verbatim>\<open>%\<close>
  is the floored \<open>mod\<close> of HOL on \<open>int\<close>, so the index is in range for every table
  entry (none is empty).
\<close>

definition variant_dirs :: "nat list list \<Rightarrow> int \<Rightarrow> (int \<times> int) list" where
  "variant_dirs variations r =
     map (\<lambda>d. DIRS ! d) (variations ! nat (r mod int (length variations)))"

definition get_connections :: "tile \<Rightarrow> (int \<times> int) list" where
  "get_connections self =
     (case PIPE_TYPES (type self) of
        None \<Rightarrow> []
      | Some variations \<Rightarrow> variant_dirs variations (tile.rotation self))"

section \<open>Puzzle states\<close>

type_synonym tiles_dict = "(position \<times> tile) list"

record game_state =
  grid_size :: int
  tiles :: tiles_dict
  source :: position

text \<open>
  \<^verbatim>\<open>apply_action\<close> on values: \<^verbatim>\<open>new_tiles[action.pos]\<close> is read first and raises
  \<^verbatim>\<open>KeyError\<close> when the position is no key of the copy.
\<close>

definition apply_action :: "game_state \<Rightarrow> action \<Rightarrow> error + game_state" where
  "apply_action self a =
     (let new_tiles = tiles self in
      case map_of new_tiles (pos a) of
        None \<Rightarrow> Inl KeyError
      | Some t \<Rightarrow>
          Inr \<lparr>grid_size = grid_size self,
               tiles = AList.update (pos a) (rotate t (action.rotation a)) new_tiles,
               source = source self\<rparr>)"

subsection \<open>The same operation on a store of dict objects\<close>

text \<open>
  To speak about mutation, dict objects live in a store (a list of dicts, the address of
  a dict is its index) and a \<^verbatim>\<open>GameState\<close> object holds the address of its tile map.
  \<^verbatim>\<open>dict(self.tiles)\<close> allocates a copy at a fresh address; the item assignment writes to
  that copy only. When the read \<^verbatim>\<open>new_tiles[action.pos]\<close> raises, the copy has been
  allocated and nothing has been written.
\<close>

type_synonym store = "tiles_dict list"

record game_state_obj =
  obj_grid_size :: int
  tiles_ref :: nat
  obj_source :: position

definition view :: "store \<Rightarrow> game_state_obj \<Rightarrow> game_state" where
  "view st obj =
     \<lparr>grid_size = obj_grid_size obj, tiles = st ! tiles_ref obj, source = obj_source obj\<rparr>"

definition apply_action_store ::
  "store \<Rightarrow> game_state_obj \<Rightarrow> action \<Rightarrow> store \<times> (error + game_state_obj)" where
  "apply_action_store st self a =
     (let new_ref = length st;
          st1 = st @ [st ! tiles_ref self]
      in case map_of (st1 ! new_ref) (pos a) of
           None \<Rightarrow> (st1, Inl KeyError)
         | Some t \<Rightarrow>
             (st1[new_ref := AList.update (pos a) (rotate t (action.rotation a)) (st1 ! new_ref)],
              Inr \<lparr>obj_grid_size = obj_grid_size self, tiles_ref = new_ref,
                   obj_source = obj_source self\<rparr>))"

section \<open>Connectivity\<close>

text \<open>
  The body of the \<^verbatim>\<open>for dr, dc in tile.get_connections()\<close> loop shared by
  \<^verbatim>\<open>is_goal\<close> and \<^verbatim>\<open>get_connected_tiles\<close>: a neighbour present in the map is
  appended to the frontier when its variant holds the opposite direction. The lookup
  \<^verbatim>\<open>PIPE_TYPES[neighbor.type]\<close> raises for a kind outside the table.
\<close>

fun follow_connections ::
  "tiles_dict \<Rightarrow> position \<Rightarrow> (int \<times> int) list \<Rightarrow> position list \<Rightarrow> error + position list" where
  "follow_connections ts p [] frontier = Inr frontier"
| "follow_connections ts p (d # ds) frontier =
     (let n = (fst p + fst d, snd p + snd d) in
      case map_of ts n of
        None \<Rightarrow> follow_connections ts p ds frontier
      | Some neighbor \<Rightarrow>
          (case PIPE_TYPES (type neighbor) of
             None \<Rightarrow> Inl KeyError
           | Some variations \<Rightarrow>
               if (- fst d, - snd d) \<in> set (variant_dirs variations (tile.rotation neighbor))
               then follow_connections ts p ds (frontier @ [n])
               else follow_connections ts p ds frontier))"

text \<open>
  The \<^verbatim>\<open>while frontier\<close> loops. The frontier is a Python list used as a stack:
  \<^verbatim>\<open>pop()\<close> takes the last element. \<^verbatim>\<open>is_goal\<close> marks a popped position as
  visited before it asks whether the position has a tile.
\<close>

function is_goal_loop :: "tiles_dict \<Rightarrow> position set \<Rightarrow> position list \<Rightarrow> error + position set" where
  "is_goal_loop ts visited frontier =
     (if frontier = [] then Inr visited
      else
        let p = last frontier; frontier1 = butlast frontier in
        if p \<in> visited then is_goal_loop ts visited frontier1
        else
          (case map_of ts p of
             None \<Rightarrow> is_goal_loop ts (insert p visited) frontier1
           | Some t \<Rightarrow>
               (case follow_connections ts p (get_connections t) frontier1 of
                  Inl e \<Rightarrow> Inl e
                | Inr frontier2 \<Rightarrow> is_goal_loop ts (insert p visited) frontier2)))"
  by pat_completeness auto
termination
proof (relation "inv_image (less_than <*lex*> less_than)
    (\<lambda>(ts, visited, frontier). (card (fst ` set ts - visited), length frontier))")
  show "wf (inv_image (less_than <*lex*> less_than)
    (\<lambda>(ts, visited, frontier). (card (fst ` set ts - visited), length (frontier :: position list))))"
    by (intro wf_inv_image wf_lex_prod wf_less_than)
next
  fix ts :: tiles_dict and visited :: "position set" and frontier :: "position list"
    and x xa
  assume "frontier \<noteq> []" "xa = butlast frontier"
  then show "((ts, visited, xa), ts, visited, frontier)
      \<in> inv_image (less_than <*lex*> less_than)
          (\<lambda>(ts, visited, frontier). (card (fst ` set ts - visited), length frontier))"
    by simp
next
  fix ts :: tiles_dict and visited :: "position set" and frontier :: "position list"
    and x xa
  assume a: "frontier \<noteq> []" "x = last frontier" "xa = butlast frontier" "x \<notin> visited"
    "map_of ts x = None"
  have "x \<notin> fst ` set ts" using a(5) by (simp add: map_of_eq_None_iff)
  then have "fst ` set ts - insert x visited = fst ` set ts - visited" by auto
  then show "((ts, insert x visited, xa), ts, visited, frontier)
      \<in> inv_image (less_than <*lex*> less_than)
          (\<lambda>(ts, visited, frontier). (card (fst ` set ts - visited), length frontier))"
    using a by simp
next
  fix ts :: tiles_dict and visited :: "position set" and frontier :: "position list"
    and x xa x2 x2a
  assume a: "frontier \<noteq> []" "x = last frontier" "x \<notin> visited" "map_of ts x = Some x2"
  have "x \<in> fst ` set ts - visited"
    using a(3,4) by (metis DiffI domI dom_map_of_conv_image_fst)
  then have "card (fst ` set ts - insert x visited) < card (fst ` set ts - visited)"
    by (metis Diff_insert card_Diff1_less finite_Diff finite_imageI finite_set)
  then show "((ts, insert x visited, x2a), ts, visited, frontier)
      \<in> inv_image (less_than <*lex*> less_than)
          (\<lambda>(ts, visited, frontier). (card (fst ` set ts - visited), length frontier))"
    by simp
qed

declare is_goal_loop.simps [simp del]

definition is_goal :: "game_state \<Rightarrow> error + bool" where
  "is_goal self =
     (case is_goal_loop (tiles self) {} [source self] of
        Inl e \<Rightarrow> Inl e
      | Inr visited \<Rightarrow> Inr (card visited = length (tiles self)))"

function get_connected_tiles_loop ::
  "tiles_dict \<Rightarrow> position set \<Rightarrow> position list \<Rightarrow> error + position set" where
  "get_connected_tiles_loop ts visited frontier =
     (if frontier = [] then Inr visited
      else
        let p = last frontier; frontier1 = butlast frontier in
        if p \<in> visited then get_connected_tiles_loop ts visited frontier1
        else
          (case map_of ts p of
             None \<Rightarrow> get_connected_tiles_loop ts visited frontier1
           | Some t \<Rightarrow>
               (case follow_connections ts p (get_connections t) frontier1 of
                  Inl e \<Rightarrow> Inl e
                | Inr frontier2 \<Rightarrow> get_connected_tiles_loop ts (insert p visited) frontier2)))"
  by pat_completeness auto
termination
proof (relation "inv_image (less_than <*lex*> less_than)
    (\<lambda>(ts, visited, frontier). (card (fst ` set ts - visited), length frontier))")
  show "wf (inv_image (less_than <*lex*> less_than)
    (\<lambda>(ts, visited, frontier). (card (fst ` set ts - visited), length (frontier :: position list))))"
    by (intro wf_inv_image wf_lex_prod wf_less_than)
next
  fix ts :: tiles_dict and visited :: "position set" and frontier :: "position list"
    and x xa
  assume "frontier \<noteq> []" "xa = butlast frontier"
  then show "((ts, visited, xa), ts, visited, frontier)
      \<in> inv_image (less_than <*lex*> less_than)
          (\<lambda>(ts, visited, frontier). (card (fst ` set ts - visited), length frontier))"
    by simp
next
  fix ts :: tiles_dict and visited :: "position set" and frontier :: "position list"
    and x xa
  assume "frontier \<noteq> []" "xa = butlast frontier"
  then show "((ts, visited, xa), ts, visited, frontier)
      \<in> inv_image (less_than <*lex*> less_than)
          (\<lambda>(ts, visited, frontier). (card (fst ` set ts - visited), length frontier))"
    by simp
next
  fix ts :: tiles_dict and visited :: "position set" and frontier :: "position list"
    and x xa x2 x2a
  assume a: "frontier \<noteq> []" "x = last frontier" "x \<notin> visited" "map_of ts x = Some x2"
  have "x \<in> fst ` set ts - visited"
    using a(3,4) by (metis DiffI domI dom_map_of_conv_image_fst)
  then have "card (fst ` set ts - insert x visited) < card (fst ` set ts - visited)"
    by (metis Diff_insert card_Diff1_less finite_Diff finite_imageI finite_set)
  then show "((ts, insert x visited, x2a), ts, visited, frontier)
      \<in> inv_image (less_than <*lex*> less_than)
          (\<lambda>(ts, visited, frontier). (card (fst ` set ts - visited), length frontier))"
    by simp
qed

declare get_connected_tiles_loop.simps [simp del]

definition get_connected_tiles :: "game_state \<Rightarrow> error + position set" where
  "get_connected_tiles self = get_connected_tiles_loop (tiles self) {} [source self]"

section \<open>Canonical key and equality\<close>

text \<open>
  \<^verbatim>\<open>sorted(self.tiles.items())\<close> compares the items as tuples; the keys of a dict are
  distinct, so the order is decided by the positions (lexicographically) and two tiles
  are never compared.
\<close>

type_synonym key = "(position \<times> string \<times> int) list"

definition hash :: "game_state \<Rightarrow> key" where
  "hash self = map (\<lambda>(p, t). (p, type t, tile.rotation t)) (sort_key fst (tiles self))"

definition state_eq :: "game_state \<Rightarrow> game_state \<Rightarrow> bool" where
  "state_eq self other \<longleftrightarrow> hash self = hash other"

section \<open>Action generator\<close>

text \<open>
  The \<^verbatim>\<open>for ... else\<close> of the End rule: the loop over the directions of the candidate
  variant breaks at a direction whose neighbour is an End tile, and the action is
  appended only when it did not break.
\<close>

definition faces_end :: "tiles_dict \<Rightarrow> position \<Rightarrow> (int \<times> int) list \<Rightarrow> bool" where
  "faces_end ts p ds =
     list_ex (\<lambda>d. case map_of ts (fst p + fst d, snd p + snd d) of
                     None \<Rightarrow> False
                   | Some neighbor \<Rightarrow> type neighbor = ''e'') ds"

definition tile_actions :: "tiles_dict \<Rightarrow> position \<Rightarrow> tile \<Rightarrow> nat list list \<Rightarrow> action list" where
  "tile_actions ts p t variations =
     concat (map (\<lambda>rot.
       if int rot \<noteq> tile.rotation t then
         if type t = ''e'' then
           if faces_end ts p (map (\<lambda>d. DIRS ! d) (variations ! rot)) then []
           else [\<lparr>pos = p, rotation = int rot\<rparr>]
         else [\<lparr>pos = p, rotation = int rot\<rparr>]
       else []) [0..<length variations])"

fun actions_loop :: "tiles_dict \<Rightarrow> (position \<times> tile) list \<Rightarrow> action list \<Rightarrow> error + action list" where
  "actions_loop ts [] actions = Inr actions"
| "actions_loop ts ((p, t) # items) actions =
     (case PIPE_TYPES (type t) of
        None \<Rightarrow> Inl KeyError
      | Some variations \<Rightarrow> actions_loop ts items (actions @ tile_actions ts p t variations))"

definition get_possible_actions :: "game_state \<Rightarrow> error + action list" where
  "get_possible_actions self = actions_loop (tiles self) (tiles self) []"

section \<open>Heuristic\<close>

definition dangling_step :: "tiles_dict \<Rightarrow> position \<Rightarrow> int \<times> int \<Rightarrow> int \<Rightarrow> int" where
  "dangling_step ts p d dangling =
     (case map_of ts (fst p + fst d, snd p + snd d) of
        None \<Rightarrow> dangling + 1
      | Some neighbor \<Rightarrow>
          if (- fst d, - snd d) \<notin> set (get_connections neighbor) then dangling + 1
          else dangling)"

definition heuristic :: "game_state \<Rightarrow> error + int" where
  "heuristic state =
     (case get_connected_tiles state of
        Inl e \<Rightarrow> Inl e
      | Inr visited \<Rightarrow>
          let connected = int (card visited);
              dangling = fold (\<lambda>(p, t) dangling.
                           fold (dangling_step (tiles state) p) (get_connections t) dangling)
                         (tiles state) 0
          in Inr (- (connected * 10) + dangling))"

section \<open>Search\<close>

text \<open>
  A frontier entry is the tuple \<^verbatim>\<open>(f, counter, state, path)\<close>. \<^verbatim>\<open>heapq\<close> is library
  code: the frontier is kept as the list of its entries, \<^verbatim>\<open>heappush\<close> adds one and
  \<^verbatim>\<open>heappop\<close> removes the least. Entries are compared as tuples; every entry is pushed
  with a counter of its own, so the pair \<open>(f, counter)\<close> decides and two states are never
  compared.
\<close>

type_synonym node = "int \<times> nat \<times> game_state \<times> action list"

definition heappush :: "node list \<Rightarrow> node \<Rightarrow> node list" where
  "heappush heap item = heap @ [item]"

definition heappop :: "node list \<Rightarrow> error + node \<times> node list" where
  "heappop heap =
     (if heap = [] then Inl IndexError
      else
        let item = arg_min_list (\<lambda>(f, counter, state, path). (f, counter)) heap
        in Inr (item, remove1 item heap))"

text \<open>The \<^verbatim>\<open>for action in state.get_possible_actions()\<close> loop of \<^verbatim>\<open>solve\<close>.\<close>

fun push_successors ::
  "game_state \<Rightarrow> int \<Rightarrow> action list \<Rightarrow> action list \<Rightarrow> node list \<Rightarrow> nat
     \<Rightarrow> error + (node list \<times> nat)" where
  "push_successors state g path [] frontier counter = Inr (frontier, counter)"
| "push_successors state g path (a # actions) frontier counter =
     (case apply_action state a of
        Inl e \<Rightarrow> Inl e
      | Inr new_state \<Rightarrow>
          (case heuristic new_state of
             Inl e \<Rightarrow> Inl e
           | Inr h \<Rightarrow>
               let new_f = g + 1 + h;
                   counter1 = counter + 1
               in push_successors state g path actions
                    (heappush frontier (new_f, counter1, new_state, path @ [a])) counter1))"

text \<open>
  The result of \<^verbatim>\<open>solve\<close>: an exception, \<^verbatim>\<open>None\<close> (no solution found) or the path.
  One iteration of the \<^verbatim>\<open>while frontier\<close> loop either returns or goes on with a new
  frontier, explored map and counter.
\<close>

type_synonym result = "error + action list option"

type_synonym config = "node list \<times> (key \<rightharpoonup> int) \<times> nat"

definition solve_step :: "config \<Rightarrow> result + config" where
  "solve_step cfg =
     (case cfg of (frontier, explored, counter) \<Rightarrow>
      case heappop frontier of
        Inl e \<Rightarrow> Inl (Inl e)
      | Inr ((f, uu, state, path), frontier1) \<Rightarrow>
      case is_goal state of
        Inl e \<Rightarrow> Inl (Inl e)
      | Inr True \<Rightarrow> Inl (Inr (Some path))
      | Inr False \<Rightarrow>
          if (case explored (hash state) of None \<Rightarrow> False | Some f0 \<Rightarrow> f0 \<le> f)
          then Inr (frontier1, explored, counter)
          else
            (case get_possible_actions state of
               Inl e \<Rightarrow> Inl (Inl e)
             | Inr actions \<Rightarrow>
                 (case push_successors state (int (length path)) path actions frontier1 counter of
                    Inl e \<Rightarrow> Inl (Inl e)
                  | Inr (frontier2, counter2) \<Rightarrow>
                      Inr (frontier2, explored(hash state \<mapsto> f), counter2))))"

text \<open>The loop may run forever a priori: not returning is the value \<open>None\<close>.\<close>

partial_function (option) solve_loop :: "config \<Rightarrow> result option" where
  "solve_loop cfg =
     (if fst cfg = [] then Some (Inr None)
      else case solve_step cfg of
             Inl r \<Rightarrow> Some r
           | Inr cfg1 \<Rightarrow> solve_loop cfg1)"

declare solve_loop.simps [code]

definition initial_frontier :: "game_state \<Rightarrow> node list" where
  "initial_frontier initial_state = heappush [] (0, 0, initial_state, [])"

definition solve :: "game_state \<Rightarrow> result option" where
  "solve initial_state = solve_loop (initial_frontier initial_state, Map.empty, 0)"

text \<open>
  The configuration after \<open>n\<close> iterations of the loop, or the result when the loop
  returns before.
\<close>

fun solve_steps :: "nat \<Rightarrow> config \<Rightarrow> result + config" where
  "solve_steps 0 cfg = Inr cfg"
| "solve_steps (Suc n) cfg =
     (if fst cfg = [] then Inl (Inr None)
      else case solve_step cfg of
             Inl r \<Rightarrow> Inl r
           | Inr cfg1 \<Rightarrow> solve_steps n cfg1)"

text \<open>Folding \<^verbatim>\<open>apply_action\<close> over an action sequence, as the viewer replays a solution.\<close>

fun apply_actions :: "game_state \<Rightarrow> action list \<Rightarrow> error + game_state" where
  "apply_actions s [] = Inr s"
| "apply_actions s (a # as) =
     (case apply_action s a of Inl e \<Rightarrow> Inl e | Inr s1 \<Rightarrow> apply_actions s1 as)"

section \<open>The heuristic in the words of the specification\<close>

text \<open>
  The specification's \<open>danglingCount\<close>: over every tile and every one of its connection
  directions, 1 when the neighbouring cell is absent from the tile map or the neighbouring
  tile does not hold the opposite direction among its connections.
\<close>

definition dangling :: "tiles_dict \<Rightarrow> position \<Rightarrow> int \<times> int \<Rightarrow> bool" where
  "dangling ts p d \<longleftrightarrow>
     (case map_of ts (fst p + fst d, snd p + snd d) of
        None \<Rightarrow> True
      | Some neighbor \<Rightarrow> (- fst d, - snd d) \<notin> set (get_connections neighbor))"

definition danglingCount :: "game_state \<Rightarrow> nat" where
  "danglingCount state =
     sum_list (map (\<lambda>(p, t). length (filter (dangling (tiles state) p) (get_connections t)))
                   (tiles state))"

section \<open>Notions for the solver contract\<close>

text \<open>
  A state is well formed when its tile map is a dict (distinct positions) and every kind is
  a key of \<^const>\<open>PIPE_TYPES\<close>, as the level format guarantees.
\<close>

definition known_kinds :: "tiles_dict \<Rightarrow> bool" where
  "known_kinds ts \<longleftrightarrow> (\<forall>item \<in> set ts. PIPE_TYPES (type (snd item)) \<noteq> None)"

definition wf_state :: "game_state \<Rightarrow> bool" where
  "wf_state s \<longleftrightarrow> distinct (map fst (tiles s)) \<and> known_kinds (tiles s)"

text \<open>
  \<open>run_emitted s path\<close> replays a path of which every action is one the generator emits
  in the state reached so far. A state is solvable when some action sequence leads to a goal
  state, and solvable by the generator when a path of emitted actions does.
\<close>

fun run_emitted :: "game_state \<Rightarrow> action list \<Rightarrow> game_state option" where
  "run_emitted s [] = Some s"
| "run_emitted s (a # as) =
     (case get_possible_actions s of
        Inl e \<Rightarrow> None
      | Inr actions \<Rightarrow>
          if a \<in> set actions then
            (case apply_action s a of Inl e \<Rightarrow> None | Inr s1 \<Rightarrow> run_emitted s1 as)
          else None)"

definition solvable_by_generator :: "game_state \<Rightarrow> bool" where
  "solvable_by_generator s0 \<longleftrightarrow>
     (\<exists>path s. run_emitted s0 path = Some s \<and> is_goal s = Inr True)"

definition solvable :: "game_state \<Rightarrow> bool" where
  "solvable s0 \<longleftrightarrow> (\<exists>path s. apply_actions s0 path = Inr s \<and> is_goal s = Inr True)"

text \<open>
  The states on the board of \<open>s0\<close>: same grid size, source, positions and kinds, and
  rotations among those of \<open>s0\<close> and the indices 0 to 3.
\<close>

definition same_board :: "game_state \<Rightarrow> game_state \<Rightarrow> bool" where
  "same_board s0 s \<longleftrightarrow>
     grid_size s = grid_size s0 \<and> source s = source s0 \<and>
     map fst (tiles s) = map fst (tiles s0) \<and>
     map (type \<circ> snd) (tiles s) = map (type \<circ> snd) (tiles s0) \<and>
     (\<forall>item \<in> set (tiles s).
        tile.rotation (snd item) \<in> tile.rotation ` snd ` set (tiles s0) \<union> {0..3})"

definition successor :: "game_state \<Rightarrow> game_state \<Rightarrow> bool" where
  "successor s s1 \<longleftrightarrow>
     (\<exists>as a. get_possible_actions s = Inr as \<and> a \<in> set as \<and> apply_action s a = Inr s1)"

text \<open>
  The invariant of the search loop. Every frontier entry carries a state reached from the
  initial state by its path of emitted actions; every explored state is no goal and has all
  its successors explored or on the frontier; the initial state is explored or on the
  frontier; priorities are bounded below; and the counters of the frontier entries are
  distinct, so that the tuple comparison of \<^verbatim>\<open>heapq\<close> is decided before it reaches
  the states.
\<close>

abbreviation node_state :: "node \<Rightarrow> game_state" where
  "node_state n \<equiv> fst (snd (snd n))"

abbreviation node_counter :: "node \<Rightarrow> nat" where
  "node_counter n \<equiv> fst (snd n)"

abbreviation node_path :: "node \<Rightarrow> action list" where
  "node_path n \<equiv> snd (snd (snd n))"

definition fresh_counters :: "node list \<Rightarrow> nat \<Rightarrow> bool" where
  "fresh_counters frontier counter \<longleftrightarrow>
     distinct (map node_counter frontier) \<and> (\<forall>n \<in> set frontier. node_counter n \<le> counter)"

definition covered :: "node list \<Rightarrow> (key \<rightharpoonup> int) \<Rightarrow> game_state \<Rightarrow> bool" where
  "covered frontier explored s \<longleftrightarrow> hash s \<in> dom explored \<or> s \<in> node_state ` set frontier"

definition search_inv :: "game_state \<Rightarrow> config \<Rightarrow> bool" where
  "search_inv s0 cfg \<longleftrightarrow>
     (case cfg of (frontier, explored, counter) \<Rightarrow>
        (\<forall>n \<in> set frontier.
           run_emitted s0 (node_path n) = Some (node_state n) \<and>
           - (10 * int (length (tiles s0))) \<le> fst n) \<and>
        (\<forall>s. same_board s0 s \<and> hash s \<in> dom explored \<longrightarrow>
           is_goal s = Inr False \<and> (\<forall>s1. successor s s1 \<longrightarrow> covered frontier explored s1)) \<and>
        dom explored \<subseteq> hash ` {s. same_board s0 s} \<and>
        (\<forall>k f. explored k = Some f \<longrightarrow> - (10 * int (length (tiles s0))) \<le> f) \<and>
        covered frontier explored s0 \<and>
        fresh_counters frontier counter)"

text \<open>
  The loop terminates: an iteration explores a new state, or lowers the priority recorded
  for an explored one, or shortens the frontier.
\<close>

definition search_measure :: "game_state \<Rightarrow> config \<Rightarrow> nat \<times> nat \<times> nat" where
  "search_measure s0 cfg =
     (case cfg of (frontier, explored, counter) \<Rightarrow>
        (card (hash ` {s. same_board s0 s} - dom explored),
         (\<Sum>k \<in> dom explored. nat (the (explored k) + 10 * int (length (tiles s0)))),
         length frontier))"

definition search_order :: "game_state \<Rightarrow> (config \<times> config) set" where
  "search_order s0 =
     inv_image (less_than <*lex*> less_than <*lex*> less_than) (search_measure s0)"

section \<open>Example states\<close>

text \<open>
  The two-tile rows of the scenario: a horizontal Straight tile at the source at \<open>(r, c)\<close>
  with an End tile to its right, and an End tile at \<open>(r, c)\<close> with the Straight tile at the
  source to its right. Rotation 1 of an End tile points east, rotation 3 west.
\<close>

definition straight_end_row :: "int \<Rightarrow> int \<Rightarrow> int \<Rightarrow> int \<Rightarrow> game_state" where
  "straight_end_row g r c e_rot =
     \<lparr>grid_size = g,
      tiles = [((r, c), \<lparr>type = ''l'', rotation = 0\<rparr>), ((r, c + 1), \<lparr>type = ''e'', rotation = e_rot\<rparr>)],
      source = (r, c)\<rparr>"

definition end_straight_row :: "int \<Rightarrow> int \<Rightarrow> int \<Rightarrow> int \<Rightarrow> game_state" where
  "end_straight_row g r c e_rot =
     \<lparr>grid_size = g,
      tiles = [((r, c), \<lparr>type = ''e'', rotation = e_rot\<rparr>), ((r, c + 1), \<lparr>type = ''l'', rotation = 0\<rparr>)],
      source = (r, c + 1)\<rparr>"

definition row_tiles :: tiles_dict where
  "row_tiles = tiles (straight_end_row 2 0 0 1)"

text \<open>Two End tiles side by side, both pointing north, the source on the left one.\<close>

definition two_ends :: game_state where
  "two_ends =
     \<lparr>grid_size = 2,
      tiles = [((0, 0), \<lparr>type = ''e'', rotation = 0\<rparr>), ((0, 1), \<lparr>type = ''e'', rotation = 0\<rparr>)],
      source = (0, 0)\<rparr>"

text \<open>A single tile without connections, and a source position that is no key of the map.\<close>

definition stray_source :: game_state where
  "stray_source =
     \<lparr>grid_size = 1, tiles = [((0, 0), \<lparr>type = ''n'', rotation = 0\<rparr>)], source = (1, 1)\<rparr>"

section \<open>Evaluation\<close>

lemma PIPE_TYPES_l: "PIPE_TYPES ''l'' = Some [[1, 3], [0, 2]]"
  by (simp add: PIPE_TYPES_def)

lemma PIPE_TYPES_e: "PIPE_TYPES ''e'' = Some [[0], [1], [2], [3]]"
  by (simp add: PIPE_TYPES_def)

lemmas eval_defs = is_goal_def get_connections_def variant_dirs_def DIRS_def
  get_possible_actions_def tile_actions_def faces_end_def heuristic_def
  get_connected_tiles_def dangling_step_def apply_action_def rotate_def heappush_def
  heappop_def hash_def upt_rec solve_step_def initial_frontier_def
  is_goal_loop.simps get_connected_tiles_loop.simps
  PIPE_TYPES_l PIPE_TYPES_e

lemma map_of_Some_key: "map_of al k = Some v \<Longrightarrow> k \<in> fst ` set al"
  by (metis domI dom_map_of_conv_image_fst)

section \<open>Rotation closure\<close>

text \<open>
  Claim C9. For every tile kind of the geometry table and every rotation index, adding the
  kind's variant count to the rotation leaves the connections unchanged.
\<close>

theorem rotation_closure:
  "PIPE_TYPES k = Some variations \<Longrightarrow>
   get_connections \<lparr>type = k, rotation = r + int (length variations)\<rparr> =
   get_connections \<lparr>type = k, rotation = r\<rparr>"
  by (simp add: get_connections_def variant_dirs_def)

theorem rotation_closure_witness:
  "PIPE_TYPES ''t'' = Some [[0, 1, 3], [0, 1, 2], [1, 2, 3], [0, 2, 3]] \<and>
   get_connections \<lparr>type = ''t'', rotation = 3 + int (length [[0, 1, 3], [0, 1, 2], [1, 2, 3], [0, 2, 3::nat]])\<rparr> =
   get_connections \<lparr>type = ''t'', rotation = 3\<rparr> \<and>
   get_connections \<lparr>type = ''t'', rotation = 3\<rparr> = [(-1, 0), (1, 0), (0, -1)]"
proof -
  have h: "PIPE_TYPES ''t'' = Some [[0, 1, 3], [0, 1, 2], [1, 2, 3], [0, 2, 3]]"
    by (simp add: PIPE_TYPES_def)
  have c: "get_connections \<lparr>type = ''t'', rotation = 3\<rparr> = [(-1, 0), (1, 0), (0, -1)]"
    by (simp add: get_connections_def variant_dirs_def h DIRS_def)
  show ?thesis using h c rotation_closure [OF h, of 3] by simp
qed

section \<open>Applying an action\<close>

text \<open>
  Claim C6. For a state object whose tile map holds the action's position, \<^verbatim>\<open>apply_action\<close>
  returns a new state object with the same grid size and source and a tile map at a fresh
  address; no dict that existed before is changed, so the input state reads as before. The
  new map has the same keys in the same order, holds at the action's position a tile of the
  same kind with the action's rotation, and agrees with the old map everywhere else. On
  values this is \<^const>\<open>apply_action\<close>.
\<close>

theorem apply_action_frame:
  assumes ref: "tiles_ref self < length st"
    and key: "map_of (st ! tiles_ref self) (pos a) = Some t"
  shows "\<exists>st' obj'.
     apply_action_store st self a = (st', Inr obj') \<and>
     obj_grid_size obj' = obj_grid_size self \<and>
     obj_source obj' = obj_source self \<and>
     tiles_ref obj' = length st \<and>
     length st' = Suc (length st) \<and>
     (\<forall>r < length st. st' ! r = st ! r) \<and>
     view st' self = view st self \<and>
     apply_action (view st self) a = Inr (view st' obj') \<and>
     grid_size (view st' obj') = grid_size (view st self) \<and>
     source (view st' obj') = source (view st self) \<and>
     map fst (tiles (view st' obj')) = map fst (tiles (view st self)) \<and>
     map_of (tiles (view st' obj')) (pos a) =
       Some \<lparr>type = type t, rotation = action.rotation a\<rparr> \<and>
     (\<forall>q. q \<noteq> pos a \<longrightarrow>
        map_of (tiles (view st' obj')) q = map_of (tiles (view st self)) q)"
  using ref key map_of_Some_key [OF key]
  by (simp add: apply_action_store_def apply_action_def view_def Let_def nth_append
      rotate_def update_conv' update_keys map_of_eq_None_iff)

theorem apply_action_frame_witness:
  "tiles_ref \<lparr>obj_grid_size = 2, tiles_ref = 0, obj_source = (0, 0)\<rparr> < length [row_tiles] \<and>
   map_of ([row_tiles] ! tiles_ref \<lparr>obj_grid_size = 2, tiles_ref = 0, obj_source = (0, 0)\<rparr>)
          (pos \<lparr>pos = (0, 1), rotation = 3\<rparr>) = Some \<lparr>type = ''e'', rotation = 1\<rparr> \<and>
   apply_action_store [row_tiles] \<lparr>obj_grid_size = 2, tiles_ref = 0, obj_source = (0, 0)\<rparr>
     \<lparr>pos = (0, 1), rotation = 3\<rparr> =
   ([row_tiles,
     [((0, 0), \<lparr>type = ''l'', rotation = 0\<rparr>), ((0, 1), \<lparr>type = ''e'', rotation = 3\<rparr>)]],
    Inr \<lparr>obj_grid_size = 2, tiles_ref = 1, obj_source = (0, 0)\<rparr>)"
proof -
  let ?self = "\<lparr>obj_grid_size = 2, tiles_ref = 0, obj_source = (0, 0)\<rparr>"
  let ?a = "\<lparr>pos = (0, 1), rotation = 3\<rparr>"
  have h1: "tiles_ref ?self < length [row_tiles]" by simp
  have h2: "map_of ([row_tiles] ! tiles_ref ?self) (pos ?a) = Some \<lparr>type = ''e'', rotation = 1\<rparr>"
    by (simp add: row_tiles_def straight_end_row_def)
  from apply_action_frame [OF h1 h2] obtain st' obj' where
    r: "apply_action_store [row_tiles] ?self ?a = (st', Inr obj')"
       "obj_grid_size obj' = obj_grid_size ?self" "obj_source obj' = obj_source ?self"
       "tiles_ref obj' = length [row_tiles]" by blast
  have e: "apply_action_store [row_tiles] ?self ?a =
     ([row_tiles,
       [((0, 0), \<lparr>type = ''l'', rotation = 0\<rparr>), ((0, 1), \<lparr>type = ''e'', rotation = 3\<rparr>)]],
      Inr \<lparr>obj_grid_size = 2, tiles_ref = 1, obj_source = (0, 0)\<rparr>)"
    using r by (simp add: apply_action_store_def rotate_def row_tiles_def straight_end_row_def)
  show ?thesis using h1 h2 e by - (intro conjI)
qed

text \<open>
  Claim C7. \<^verbatim>\<open>apply_action\<close> raises exactly when the action's position is no key of the
  state's tile map (the exception is Python's \<^verbatim>\<open>KeyError\<close>, which the specification
  calls \<open>InvalidAction\<close>); then no state is returned, no dict that existed before is changed
  and the input state reads as before.
\<close>

theorem apply_action_error:
  assumes ref: "tiles_ref self < length st"
  shows "(snd (apply_action_store st self a) = Inl KeyError \<longleftrightarrow>
            pos a \<notin> fst ` set (st ! tiles_ref self)) \<and>
         (apply_action (view st self) a = Inl KeyError \<longleftrightarrow>
            pos a \<notin> fst ` set (tiles (view st self))) \<and>
         (pos a \<notin> fst ` set (st ! tiles_ref self) \<longrightarrow>
            (\<forall>r < length st. fst (apply_action_store st self a) ! r = st ! r) \<and>
            view (fst (apply_action_store st self a)) self = view st self)"
  using ref
  by (auto simp add: apply_action_store_def apply_action_def view_def Let_def nth_append
      map_of_eq_None_iff split: option.splits dest: map_of_Some_key)

theorem apply_action_error_witness:
  "tiles_ref \<lparr>obj_grid_size = 2, tiles_ref = 0, obj_source = (0, 0)\<rparr> < length [row_tiles] \<and>
   pos \<lparr>pos = (1, 1), rotation = 3\<rparr> \<notin>
     fst ` set ([row_tiles] ! tiles_ref \<lparr>obj_grid_size = 2, tiles_ref = 0, obj_source = (0, 0)\<rparr>) \<and>
   snd (apply_action_store [row_tiles] \<lparr>obj_grid_size = 2, tiles_ref = 0, obj_source = (0, 0)\<rparr>
     \<lparr>pos = (1, 1), rotation = 3\<rparr>) = Inl KeyError \<and>
   view (fst (apply_action_store [row_tiles] \<lparr>obj_grid_size = 2, tiles_ref = 0, obj_source = (0, 0)\<rparr>
     \<lparr>pos = (1, 1), rotation = 3\<rparr>)) \<lparr>obj_grid_size = 2, tiles_ref = 0, obj_source = (0, 0)\<rparr> =
   \<lparr>grid_size = 2, tiles = row_tiles, source = (0, 0)\<rparr>"
proof -
  let ?self = "\<lparr>obj_grid_size = 2, tiles_ref = 0, obj_source = (0, 0)\<rparr>"
  let ?a = "\<lparr>pos = (1, 1), rotation = 3\<rparr>"
  have h1: "tiles_ref ?self < length [row_tiles]" by simp
  have h2: "pos ?a \<notin> fst ` set ([row_tiles] ! tiles_ref ?self)" by (simp add: row_tiles_def straight_end_row_def)
  have v: "view [row_tiles] ?self = \<lparr>grid_size = 2, tiles = row_tiles, source = (0, 0)\<rparr>"
    by (simp add: view_def)
  from apply_action_error [OF h1, of ?a] h2
  have e1: "snd (apply_action_store [row_tiles] ?self ?a) = Inl KeyError"
    and e2: "view (fst (apply_action_store [row_tiles] ?self ?a)) ?self = view [row_tiles] ?self"
    by blast+
  show ?thesis using h1 h2 e1 e2 [unfolded v] by - (intro conjI)
qed

section \<open>The two-tile scenario\<close>

lemma straight_end_goal:
  "is_goal (straight_end_row g r c 1) = Inr False"
  "is_goal (straight_end_row g r c 3) = Inr True"
  "apply_action (straight_end_row g r c 1) \<lparr>pos = (r, c + 1), rotation = 3\<rparr> =
     Inr (straight_end_row g r c 3)"
  by (simp_all add: straight_end_row_def eval_defs)

lemma end_straight_goal:
  "is_goal (end_straight_row g r c 3) = Inr False"
  "is_goal (end_straight_row g r c 1) = Inr True"
  "apply_action (end_straight_row g r c 3) \<lparr>pos = (r, c), rotation = 1\<rparr> =
     Inr (end_straight_row g r c 1)"
  by (simp_all add: end_straight_row_def eval_defs)

lemma straight_end_solve:
  "solve (straight_end_row g r c 1) = Some (Inr (Some [\<lparr>pos = (r, c + 1), rotation = 3\<rparr>]))"
proof -
  have "solve (straight_end_row g r c 1) =
      solve_loop (initial_frontier (straight_end_row g r c 1), Map.empty, 0)"
    by (simp add: solve_def)
  also have "\<dots> = Some (Inr (Some [\<lparr>pos = (r, c + 1), rotation = 3\<rparr>]))"
    apply (subst solve_loop.simps)
    apply (simp add: straight_end_row_def eval_defs)
    apply (subst solve_loop.simps)
    apply (simp add: straight_end_row_def eval_defs)
    done
  finally show ?thesis .
qed

lemma end_straight_solve:
  "solve (end_straight_row g r c 3) = Some (Inr (Some [\<lparr>pos = (r, c), rotation = 1\<rparr>]))"
proof -
  have "solve (end_straight_row g r c 3) =
      solve_loop (initial_frontier (end_straight_row g r c 3), Map.empty, 0)"
    by (simp add: solve_def)
  also have "\<dots> = Some (Inr (Some [\<lparr>pos = (r, c), rotation = 1\<rparr>]))"
    apply (subst solve_loop.simps)
    apply (simp add: end_straight_row_def eval_defs)
    apply (subst solve_loop.simps)
    apply (simp add: end_straight_row_def eval_defs)
    done
  finally show ?thesis .
qed

text \<open>
  Claim C8. In a two-tile row with a horizontal Straight tile at the source and an End tile
  beside it that faces away (to the right of the Straight tile and pointing east, or to its
  left and pointing west), \<^verbatim>\<open>is_goal\<close> is false; the one action that turns the End tile
  towards the Straight tile gives a state where \<^verbatim>\<open>is_goal\<close> is true; and \<^verbatim>\<open>solve\<close>
  returns exactly that one action. This holds at every position and for every grid size.
\<close>

theorem two_tile_scenario:
  "is_goal (straight_end_row g r c 1) = Inr False \<and>
   apply_action (straight_end_row g r c 1) \<lparr>pos = (r, c + 1), rotation = 3\<rparr> =
     Inr (straight_end_row g r c 3) \<and>
   is_goal (straight_end_row g r c 3) = Inr True \<and>
   solve (straight_end_row g r c 1) = Some (Inr (Some [\<lparr>pos = (r, c + 1), rotation = 3\<rparr>])) \<and>
   is_goal (end_straight_row g r c 3) = Inr False \<and>
   apply_action (end_straight_row g r c 3) \<lparr>pos = (r, c), rotation = 1\<rparr> =
     Inr (end_straight_row g r c 1) \<and>
   is_goal (end_straight_row g r c 1) = Inr True \<and>
   solve (end_straight_row g r c 3) = Some (Inr (Some [\<lparr>pos = (r, c), rotation = 1\<rparr>]))"
  using straight_end_goal [of g r c] end_straight_goal [of g r c]
    straight_end_solve [of g r c] end_straight_solve [of g r c]
  by simp

section \<open>Action legality\<close>

lemma set_tile_actions:
  "a \<in> set (tile_actions ts p t variations) \<longleftrightarrow>
     (\<exists>rot < length variations. a = \<lparr>pos = p, rotation = int rot\<rparr> \<and> int rot \<noteq> tile.rotation t \<and>
        (type t = ''e'' \<longrightarrow> \<not> faces_end ts p (map (\<lambda>d. DIRS ! d) (variations ! rot))))"
  by (auto simp add: tile_actions_def split: if_splits)

lemma actions_loop_set:
  "actions_loop ts items acc = Inr as \<Longrightarrow>
   set as = set acc \<union>
     (\<Union>item \<in> set items.
        case PIPE_TYPES (type (snd item)) of
          None \<Rightarrow> {}
        | Some variations \<Rightarrow> set (tile_actions ts (fst item) (snd item) variations))"
proof (induction items arbitrary: acc)
  case Nil
  then show ?case by simp
next
  case (Cons item items)
  obtain p t where item: "item = (p, t)" by (cases item)
  from Cons.prems item obtain variations where
    v: "PIPE_TYPES (type t) = Some variations"
    and rest: "actions_loop ts items (acc @ tile_actions ts p t variations) = Inr as"
    by (auto split: option.splits)
  from Cons.IH [OF rest] v item show ?case by auto
qed

lemma variant_dirs_in_range:
  "rot < length variations \<Longrightarrow>
   variant_dirs variations (int rot) = map (\<lambda>d. DIRS ! d) (variations ! rot)"
  by (simp add: variant_dirs_def)

text \<open>
  Claim C4. Every action of \<^verbatim>\<open>get_possible_actions\<close> names a position of the tile map and
  a rotation index other than the tile's current one; applying it gives a state with the same
  grid size, source and positions whose map differs from the input's at that position only,
  where the tile keeps its kind and takes the action's rotation. For an End tile, the direction
  of the new orientation never points at a position holding an End tile.
\<close>

theorem action_legality:
  assumes keys: "distinct (map fst (tiles s))"
    and gen: "get_possible_actions s = Inr as"
    and mem: "a \<in> set as"
  shows "\<exists>t. map_of (tiles s) (pos a) = Some t \<and>
           action.rotation a \<noteq> tile.rotation t \<and>
           (\<exists>s1. apply_action s a = Inr s1 \<and>
              grid_size s1 = grid_size s \<and> source s1 = source s \<and>
              map fst (tiles s1) = map fst (tiles s) \<and>
              map_of (tiles s1) (pos a) = Some \<lparr>type = type t, rotation = action.rotation a\<rparr> \<and>
              (\<forall>q. q \<noteq> pos a \<longrightarrow> map_of (tiles s1) q = map_of (tiles s) q)) \<and>
           (type t = ''e'' \<longrightarrow>
              (\<forall>d \<in> set (get_connections \<lparr>type = ''e'', rotation = action.rotation a\<rparr>).
                 \<forall>neighbor. map_of (tiles s) (fst (pos a) + fst d, snd (pos a) + snd d) = Some neighbor
                   \<longrightarrow> type neighbor \<noteq> ''e''))"
proof -
  from actions_loop_set [OF gen [unfolded get_possible_actions_def]] mem
  obtain p t variations where
    item: "(p, t) \<in> set (tiles s)" and v: "PIPE_TYPES (type t) = Some variations"
    and a: "a \<in> set (tile_actions (tiles s) p t variations)"
    by (auto split: option.splits)
  from a obtain rot where rot: "rot < length variations"
    and a_eq: "a = \<lparr>pos = p, rotation = int rot\<rparr>"
    and differs: "int rot \<noteq> tile.rotation t"
    and end_rule: "type t = ''e'' \<longrightarrow>
       \<not> faces_end (tiles s) p (map (\<lambda>d. DIRS ! d) (variations ! rot))"
    unfolding set_tile_actions by blast
  have look: "map_of (tiles s) (pos a) = Some t"
    using keys item a_eq by simp
  have app: "apply_action s a =
      Inr \<lparr>grid_size = grid_size s,
           tiles = AList.update (pos a) (rotate t (action.rotation a)) (tiles s),
           source = source s\<rparr>"
    using look by (simp add: apply_action_def)
  have e: "type t = ''e'' \<longrightarrow>
      (\<forall>d \<in> set (get_connections \<lparr>type = ''e'', rotation = action.rotation a\<rparr>).
         \<forall>neighbor. map_of (tiles s) (fst (pos a) + fst d, snd (pos a) + snd d) = Some neighbor
           \<longrightarrow> type neighbor \<noteq> ''e'')"
  proof (intro impI ballI allI)
    fix d neighbor
    assume t: "type t = ''e''"
      and d: "d \<in> set (get_connections \<lparr>type = ''e'', rotation = action.rotation a\<rparr>)"
      and n: "map_of (tiles s) (fst (pos a) + fst d, snd (pos a) + snd d) = Some neighbor"
    have "get_connections \<lparr>type = ''e'', rotation = action.rotation a\<rparr> =
        map (\<lambda>d. DIRS ! d) (variations ! rot)"
      using v t rot a_eq by (simp add: get_connections_def variant_dirs_in_range)
    with d have "d \<in> set (map (\<lambda>d. DIRS ! d) (variations ! rot))" by simp
    moreover have "\<not> faces_end (tiles s) p (map (\<lambda>d. DIRS ! d) (variations ! rot))"
      using end_rule t by simp
    ultimately show "type neighbor \<noteq> ''e''"
      using n a_eq by (auto simp add: faces_end_def list_ex_iff split: option.splits)
  qed
  show ?thesis
    using look differs a_eq app e
    by (simp add: rotate_def update_conv' update_keys map_of_Some_key)
qed

theorem action_legality_witness:
  "distinct (map fst (tiles two_ends)) \<and>
   get_possible_actions two_ends =
     Inr [\<lparr>pos = (0, 0), rotation = 2\<rparr>, \<lparr>pos = (0, 0), rotation = 3\<rparr>,
          \<lparr>pos = (0, 1), rotation = 1\<rparr>, \<lparr>pos = (0, 1), rotation = 2\<rparr>] \<and>
   (\<exists>t. map_of (tiles two_ends) (0, 0) = Some t \<and> 2 \<noteq> tile.rotation t \<and>
      (\<exists>s1. apply_action two_ends \<lparr>pos = (0, 0), rotation = 2\<rparr> = Inr s1 \<and>
         map_of (tiles s1) (0, 0) = Some \<lparr>type = type t, rotation = 2\<rparr>))"
proof -
  let ?as = "[\<lparr>pos = (0, 0), rotation = 2\<rparr>, \<lparr>pos = (0, 0), rotation = 3\<rparr>,
          \<lparr>pos = (0, 1), rotation = 1\<rparr>, \<lparr>pos = (0, 1), rotation = 2\<rparr>]"
  have h1: "distinct (map fst (tiles two_ends))" by (simp add: two_ends_def)
  have h2: "get_possible_actions two_ends = Inr ?as"
    by (simp add: two_ends_def eval_defs)
  have h3: "\<lparr>pos = (0, 0), rotation = 2\<rparr> \<in> set ?as" by simp
  from action_legality [OF h1 h2 h3] h1 h2 show ?thesis by auto
qed

section \<open>Canonical key\<close>

lemma sort_key_fst_canonical:
  assumes "distinct (map fst al)"
  shows "sort_key fst al =
     map (\<lambda>k. (k, the (map_of al k))) (sorted_list_of_set (fst ` set al))"
proof -
  have keys: "map fst (sort_key fst al) = sorted_list_of_set (fst ` set al)"
  proof (rule sorted_distinct_set_unique)
    show "sorted (map fst (sort_key fst al))" by (rule sorted_sort_key)
    show "distinct (map fst (sort_key fst al))"
      using assms by (simp add: distinct_map)
    show "set (map fst (sort_key fst al)) = set (sorted_list_of_set (fst ` set al))"
      by simp
  qed simp_all
  have "sort_key fst al = map (\<lambda>item. (fst item, the (map_of al (fst item)))) (sort_key fst al)"
  proof (rule map_idI [symmetric])
    fix item assume "item \<in> set (sort_key fst al)"
    then have "item \<in> set al" by simp
    then have "map_of al (fst item) = Some (snd item)"
      using assms by (metis map_of_is_SomeI prod.collapse)
    then show "(fst item, the (map_of al (fst item))) = item" by simp
  qed
  also have "\<dots> = map (\<lambda>k. (k, the (map_of al k))) (map fst (sort_key fst al))"
    by (simp add: comp_def)
  finally show ?thesis using keys by simp
qed

text \<open>
  Claim C10. Two states whose tile maps are equal as maps have the same canonical key and
  compare equal, whatever their sources, grid sizes and insertion orders.
\<close>

theorem key_ignores_source_and_size:
  assumes "distinct (map fst (tiles s1))" and "distinct (map fst (tiles s2))"
    and "map_of (tiles s1) = map_of (tiles s2)"
  shows "hash s1 = hash s2 \<and> state_eq s1 s2"
proof -
  have "fst ` set (tiles s1) = fst ` set (tiles s2)"
    using assms(3) by (metis dom_map_of_conv_image_fst)
  then have "sort_key fst (tiles s1) = sort_key fst (tiles s2)"
    using assms by (simp add: sort_key_fst_canonical)
  then show ?thesis by (simp add: hash_def state_eq_def)
qed

theorem key_ignores_source_and_size_witness:
  "distinct (map fst (tiles (straight_end_row 2 0 0 1))) \<and>
   distinct (map fst (tiles \<lparr>grid_size = 5, tiles = rev row_tiles, source = (0, 1)\<rparr>)) \<and>
   map_of (tiles (straight_end_row 2 0 0 1)) =
     map_of (tiles \<lparr>grid_size = 5, tiles = rev row_tiles, source = (0, 1)\<rparr>) \<and>
   hash (straight_end_row 2 0 0 1) = hash \<lparr>grid_size = 5, tiles = rev row_tiles, source = (0, 1)\<rparr> \<and>
   state_eq (straight_end_row 2 0 0 1) \<lparr>grid_size = 5, tiles = rev row_tiles, source = (0, 1)\<rparr> \<and>
   straight_end_row 2 0 0 1 \<noteq> \<lparr>grid_size = 5, tiles = rev row_tiles, source = (0, 1)\<rparr>"
proof -
  let ?s2 = "\<lparr>grid_size = 5, tiles = rev row_tiles, source = (0, 1)\<rparr>"
  have h1: "distinct (map fst (tiles (straight_end_row 2 0 0 1)))"
    by (simp add: straight_end_row_def)
  have h2: "distinct (map fst (tiles ?s2))"
    by (simp add: row_tiles_def straight_end_row_def)
  have h3: "map_of (tiles (straight_end_row 2 0 0 1)) = map_of (tiles ?s2)"
    by (auto simp add: row_tiles_def straight_end_row_def fun_eq_iff)
  have ne: "straight_end_row 2 0 0 1 \<noteq> ?s2"
    by (simp add: straight_end_row_def)
  from key_ignores_source_and_size [OF h1 h2 h3] h1 h2 h3 ne show ?thesis by blast
qed

section \<open>The dangling count\<close>

lemma dangling_step_eq:
  "dangling_step ts p d n = n + (if dangling ts p d then 1 else 0)"
  by (simp add: dangling_step_def dangling_def split: option.splits)

lemma fold_dangling_step:
  "fold (dangling_step ts p) ds n = n + int (length (filter (dangling ts p) ds))"
  by (induction ds arbitrary: n) (simp_all add: dangling_step_eq)

lemma fold_tiles_dangling:
  "fold (\<lambda>(p, t) n. fold (dangling_step ts p) (get_connections t) n) items n =
   n + int (sum_list (map (\<lambda>(p, t). length (filter (dangling ts p) (get_connections t))) items))"
  by (induction items arbitrary: n) (simp_all add: fold_dangling_step split_beta)

section \<open>The traversals\<close>

text \<open>
  One unfolding of each loop, without the \<open>let\<close>. When every kind is in the geometry
  table no lookup raises and both traversals return a set; \<^verbatim>\<open>get_connected_tiles\<close>
  visits positions of the tile map only and never drops a visited position; and from a
  frontier of positions of the tile map the two loops compute the same set.
\<close>

lemma is_goal_loop_unfold:
  "is_goal_loop ts visited frontier =
     (if frontier = [] then Inr visited
      else if last frontier \<in> visited then is_goal_loop ts visited (butlast frontier)
      else
        (case map_of ts (last frontier) of
           None \<Rightarrow> is_goal_loop ts (insert (last frontier) visited) (butlast frontier)
         | Some t \<Rightarrow>
             (case follow_connections ts (last frontier) (get_connections t) (butlast frontier) of
                Inl e \<Rightarrow> Inl e
              | Inr frontier2 \<Rightarrow> is_goal_loop ts (insert (last frontier) visited) frontier2)))"
  by (subst is_goal_loop.simps) (simp add: Let_def)

lemma get_connected_tiles_loop_unfold:
  "get_connected_tiles_loop ts visited frontier =
     (if frontier = [] then Inr visited
      else if last frontier \<in> visited then get_connected_tiles_loop ts visited (butlast frontier)
      else
        (case map_of ts (last frontier) of
           None \<Rightarrow> get_connected_tiles_loop ts visited (butlast frontier)
         | Some t \<Rightarrow>
             (case follow_connections ts (last frontier) (get_connections t) (butlast frontier) of
                Inl e \<Rightarrow> Inl e
              | Inr frontier2 \<Rightarrow>
                  get_connected_tiles_loop ts (insert (last frontier) visited) frontier2)))"
  by (subst get_connected_tiles_loop.simps) (simp add: Let_def)

lemma known_kinds_lookup:
  "known_kinds ts \<Longrightarrow> map_of ts p = Some t \<Longrightarrow> \<exists>variations. PIPE_TYPES (type t) = Some variations"
  by (auto simp add: known_kinds_def dest!: map_of_SomeD)

lemma follow_connections_ok:
  "known_kinds ts \<Longrightarrow>
   \<exists>frontier1. follow_connections ts p ds frontier = Inr frontier1 \<and>
      set frontier1 \<subseteq> set frontier \<union> fst ` set ts"
proof (induction ds arbitrary: frontier)
  case Nil
  then show ?case by simp
next
  case (Cons d ds)
  let ?n = "(fst p + fst d, snd p + snd d)"
  show ?case
  proof (cases "map_of ts ?n")
    case None
    with Cons.IH [OF Cons.prems, of frontier] show ?thesis by simp
  next
    case (Some neighbor)
    from known_kinds_lookup [OF Cons.prems Some] obtain variations
      where v: "PIPE_TYPES (type neighbor) = Some variations" by blast
    have n: "?n \<in> fst ` set ts" using Some by (rule map_of_Some_key)
    from Cons.IH [OF Cons.prems, of "frontier @ [?n]"] Cons.IH [OF Cons.prems, of frontier]
    show ?thesis using Some v n by (auto simp add: Let_def)
  qed
qed

lemma follow_connections_error:
  "follow_connections ts p ds frontier = Inr frontier1 \<Longrightarrow>
   set frontier1 \<subseteq> set frontier \<union> fst ` set ts"
proof (induction ds arbitrary: frontier)
  case Nil
  then show ?case by auto
next
  case (Cons d ds)
  let ?n = "(fst p + fst d, snd p + snd d)"
  show ?case
  proof (cases "map_of ts ?n")
    case None
    with Cons.prems have "follow_connections ts p ds frontier = Inr frontier1" by simp
    then show ?thesis by (rule Cons.IH)
  next
    case (Some neighbor)
    have n: "?n \<in> fst ` set ts" using Some by (rule map_of_Some_key)
    from Cons.prems Some obtain frontier0 where
      r: "follow_connections ts p ds frontier0 = Inr frontier1"
      and f: "frontier0 = frontier @ [?n] \<or> frontier0 = frontier"
      by (auto simp add: Let_def split: option.splits if_splits)
    have "set frontier0 \<subseteq> insert ?n (set frontier)" using f by auto
    with n Cons.IH [OF r] show ?thesis by blast
  qed
qed

lemma is_goal_loop_ok:
  "known_kinds ts \<Longrightarrow> \<exists>visited1. is_goal_loop ts visited frontier = Inr visited1"
proof (induction ts visited frontier rule: is_goal_loop.induct)
  case (1 ts visited frontier)
  show ?case
  proof (cases "frontier = []")
    case True
    then show ?thesis by (subst is_goal_loop_unfold) simp
  next
    case ne: False
    show ?thesis
    proof (cases "last frontier \<in> visited")
      case True
      with ne "1.IH"(1) "1.prems" show ?thesis
        by (subst is_goal_loop_unfold) simp
    next
      case nv: False
      show ?thesis
      proof (cases "map_of ts (last frontier)")
        case None
        with ne nv "1.IH"(2) "1.prems" show ?thesis
          by (subst is_goal_loop_unfold) simp
      next
        case (Some t)
        from follow_connections_ok [OF "1.prems"] obtain frontier2 where
          f: "follow_connections ts (last frontier) (get_connections t) (butlast frontier) = Inr frontier2"
          by blast
        with ne nv Some "1.IH"(3) "1.prems" show ?thesis
          by (subst is_goal_loop_unfold) simp
      qed
    qed
  qed
qed

lemma get_connected_tiles_loop_ok:
  "known_kinds ts \<Longrightarrow> \<exists>visited1. get_connected_tiles_loop ts visited frontier = Inr visited1"
proof (induction ts visited frontier rule: get_connected_tiles_loop.induct)
  case (1 ts visited frontier)
  show ?case
  proof (cases "frontier = []")
    case True
    then show ?thesis by (subst get_connected_tiles_loop_unfold) simp
  next
    case ne: False
    show ?thesis
    proof (cases "last frontier \<in> visited")
      case True
      with ne "1.IH"(1) "1.prems" show ?thesis
        by (subst get_connected_tiles_loop_unfold) simp
    next
      case nv: False
      show ?thesis
      proof (cases "map_of ts (last frontier)")
        case None
        with ne nv "1.IH"(2) "1.prems" show ?thesis
          by (subst get_connected_tiles_loop_unfold) simp
      next
        case (Some t)
        from follow_connections_ok [OF "1.prems"] obtain frontier2 where
          f: "follow_connections ts (last frontier) (get_connections t) (butlast frontier) = Inr frontier2"
          by blast
        with ne nv Some "1.IH"(3) "1.prems" show ?thesis
          by (subst get_connected_tiles_loop_unfold) simp
      qed
    qed
  qed
qed

lemma get_connected_tiles_loop_subset:
  "get_connected_tiles_loop ts visited frontier = Inr visited1 \<Longrightarrow>
   visited \<subseteq> fst ` set ts \<Longrightarrow> visited1 \<subseteq> fst ` set ts"
proof (induction ts visited frontier rule: get_connected_tiles_loop.induct)
  case (1 ts visited frontier)
  show ?case
  proof (cases "frontier = []")
    case True
    with "1.prems" show ?thesis by (subst (asm) get_connected_tiles_loop_unfold) simp
  next
    case ne: False
    show ?thesis
    proof (cases "last frontier \<in> visited")
      case True
      with ne "1.IH"(1) "1.prems" show ?thesis
        by (subst (asm) get_connected_tiles_loop_unfold) simp
    next
      case nv: False
      show ?thesis
      proof (cases "map_of ts (last frontier)")
        case None
        with ne nv "1.IH"(2) "1.prems" show ?thesis
          by (subst (asm) get_connected_tiles_loop_unfold) simp
      next
        case (Some t)
        have k: "last frontier \<in> fst ` set ts" using Some by (rule map_of_Some_key)
        have unfold: "get_connected_tiles_loop ts visited frontier =
            (case follow_connections ts (last frontier) (get_connections t) (butlast frontier) of
               Inl e \<Rightarrow> Inl e
             | Inr frontier2 \<Rightarrow>
                 get_connected_tiles_loop ts (insert (last frontier) visited) frontier2)"
          using ne nv Some by (subst get_connected_tiles_loop_unfold) simp
        from "1.prems"(1) obtain frontier2 where
          f: "follow_connections ts (last frontier) (get_connections t) (butlast frontier) = Inr frontier2"
          and r: "get_connected_tiles_loop ts (insert (last frontier) visited) frontier2 = Inr visited1"
          unfolding unfold by (auto split: sum.splits)
        from "1.IH"(3) [OF ne refl refl nv Some f r] k "1.prems"(2) show ?thesis by simp
      qed
    qed
  qed
qed

lemma set_butlast_subset: "set (butlast xs) \<subseteq> set xs"
  by (auto dest: in_set_butlastD)

lemma loops_agree:
  "set frontier \<subseteq> fst ` set ts \<Longrightarrow>
   is_goal_loop ts visited frontier = get_connected_tiles_loop ts visited frontier"
proof (induction ts visited frontier rule: is_goal_loop.induct)
  case (1 ts visited frontier)
  show ?case
  proof (cases "frontier = []")
    case True
    then show ?thesis
      by (subst is_goal_loop_unfold, subst get_connected_tiles_loop_unfold) simp
  next
    case ne: False
    have rest: "set (butlast frontier) \<subseteq> fst ` set ts"
      using "1.prems" set_butlast_subset [of frontier] by blast
    have key: "last frontier \<in> fst ` set ts"
      using "1.prems" ne last_in_set by blast
    show ?thesis
    proof (cases "last frontier \<in> visited")
      case True
      with ne "1.IH"(1) [OF ne refl refl True rest] show ?thesis
        by (subst is_goal_loop_unfold, subst get_connected_tiles_loop_unfold) simp
    next
      case nv: False
      from key obtain t where t: "map_of ts (last frontier) = Some t"
        by (metis dom_map_of_conv_image_fst domD)
      show ?thesis
      proof (cases "follow_connections ts (last frontier) (get_connections t) (butlast frontier)")
        case (Inl e)
        with ne nv t show ?thesis
          by (subst is_goal_loop_unfold, subst get_connected_tiles_loop_unfold) simp
      next
        case (Inr frontier2)
        have "set frontier2 \<subseteq> fst ` set ts"
          using follow_connections_error [OF Inr] rest by blast
        from "1.IH"(3) [OF ne refl refl nv t Inr this] ne nv t Inr show ?thesis
          by (subst is_goal_loop_unfold, subst get_connected_tiles_loop_unfold) simp
      qed
    qed
  qed
qed

lemma get_connected_tiles_loop_mono:
  "get_connected_tiles_loop ts visited frontier = Inr visited1 \<Longrightarrow> visited \<subseteq> visited1"
proof (induction ts visited frontier rule: get_connected_tiles_loop.induct)
  case (1 ts visited frontier)
  show ?case
  proof (cases "frontier = []")
    case True
    with "1.prems" show ?thesis by (subst (asm) get_connected_tiles_loop_unfold) simp
  next
    case ne: False
    show ?thesis
    proof (cases "last frontier \<in> visited")
      case True
      with ne "1.IH"(1) "1.prems" show ?thesis
        by (subst (asm) get_connected_tiles_loop_unfold) simp
    next
      case nv: False
      show ?thesis
      proof (cases "map_of ts (last frontier)")
        case None
        with ne nv "1.IH"(2) "1.prems" show ?thesis
          by (subst (asm) get_connected_tiles_loop_unfold) simp
      next
        case (Some t)
        have unfold: "get_connected_tiles_loop ts visited frontier =
            (case follow_connections ts (last frontier) (get_connections t) (butlast frontier) of
               Inl e \<Rightarrow> Inl e
             | Inr frontier2 \<Rightarrow>
                 get_connected_tiles_loop ts (insert (last frontier) visited) frontier2)"
          using ne nv Some by (subst get_connected_tiles_loop_unfold) simp
        from "1.prems"(1) obtain frontier2 where
          f: "follow_connections ts (last frontier) (get_connections t) (butlast frontier) = Inr frontier2"
          and r: "get_connected_tiles_loop ts (insert (last frontier) visited) frontier2 = Inr visited1"
          unfolding unfold by (auto split: sum.splits)
        from "1.IH"(3) [OF ne refl refl nv Some f r] show ?thesis by blast
      qed
    qed
  qed
qed

lemma source_connected:
  assumes "get_connected_tiles s = Inr connected" and "source s \<in> fst ` set (tiles s)"
  shows "source s \<in> connected"
proof -
  from assms(2) obtain t where t: "map_of (tiles s) (source s) = Some t"
    by (metis dom_map_of_conv_image_fst domD)
  have "get_connected_tiles s =
      (case follow_connections (tiles s) (source s) (get_connections t) [] of
         Inl e \<Rightarrow> Inl e
       | Inr frontier2 \<Rightarrow> get_connected_tiles_loop (tiles s) {source s} frontier2)"
    unfolding get_connected_tiles_def using t
    by (subst get_connected_tiles_loop_unfold) (simp cong: sum.case_cong)
  with assms(1) obtain frontier2 where
    "get_connected_tiles_loop (tiles s) {source s} frontier2 = Inr connected"
    by (auto split: sum.splits)
  from get_connected_tiles_loop_mono [OF this] show ?thesis by simp
qed

section \<open>Goal soundness\<close>

text \<open>
  When the source is a key of the tile map, the two traversals visit the same positions:
  a true \<^verbatim>\<open>is_goal\<close> then gives a connected set of the size of the map that holds the
  source.
\<close>

lemma goal_soundness_source_in_map:
  assumes src: "source s \<in> fst ` set (tiles s)" and goal: "is_goal s = Inr True"
  shows "\<exists>connected. get_connected_tiles s = Inr connected \<and>
           card connected = length (tiles s) \<and> source s \<in> connected"
proof -
  have eq: "is_goal_loop (tiles s) {} [source s] = get_connected_tiles s"
    unfolding get_connected_tiles_def using src by (intro loops_agree) simp
  from goal obtain connected where c: "get_connected_tiles s = Inr connected"
    and n: "card connected = length (tiles s)"
    unfolding is_goal_def eq by (auto split: sum.splits)
  with source_connected [OF c src] show ?thesis by blast
qed

text \<open>
  Claim C2. For every state, a true \<^verbatim>\<open>is_goal\<close> should give a connected set of the size
  of the tile map that holds the source. \<^verbatim>\<open>is_goal\<close> marks the source as visited before
  it asks whether the source has a tile, which \<^verbatim>\<open>get_connected_tiles\<close> asks first: for
  a map of one tile and a source elsewhere \<^verbatim>\<open>is_goal\<close> is true, the connected set is
  empty and the source is not in it.
\<close>

theorem stray_source_goal:
  "is_goal stray_source = Inr True \<and>
   get_connected_tiles stray_source = Inr {} \<and>
   length (tiles stray_source) = 1 \<and>
   source stray_source \<notin> fst ` set (tiles stray_source)"
  by (simp add: stray_source_def eval_defs)

section \<open>States of one board\<close>

text \<open>
  On a well-formed state the generator, the goal test and the heuristic return without
  raising, and every emitted action leads to a state of the same board. The states of one
  board are finitely many, and the canonical key tells them apart.
\<close>

lemma same_board_refl: "same_board s s"
  by (simp add: same_board_def)

lemma known_kinds_types:
  "known_kinds ts \<longleftrightarrow> (\<forall>k \<in> set (map (type \<circ> snd) ts). PIPE_TYPES k \<noteq> None)"
  by (simp add: known_kinds_def)

lemma same_board_wf: "wf_state s0 \<Longrightarrow> same_board s0 s \<Longrightarrow> wf_state s"
  unfolding wf_state_def known_kinds_types by (simp add: same_board_def)

lemma variant_count_le: "PIPE_TYPES k = Some variations \<Longrightarrow> length variations \<le> 4"
  by (auto simp add: PIPE_TYPES_def split: if_splits)

lemma actions_loop_ok:
  "known_kinds items \<Longrightarrow> \<exists>as. actions_loop ts items acc = Inr as"
proof (induction items arbitrary: acc)
  case Nil
  then show ?case by simp
next
  case (Cons item items)
  obtain p t where item: "item = (p, t)" by (cases item)
  from Cons.prems item obtain variations where "PIPE_TYPES (type t) = Some variations"
    by (auto simp add: known_kinds_def)
  moreover have "known_kinds items" using Cons.prems by (simp add: known_kinds_def)
  ultimately show ?case using Cons.IH item by simp
qed

lemma get_possible_actions_ok:
  "wf_state s \<Longrightarrow> \<exists>as. get_possible_actions s = Inr as"
  by (simp add: wf_state_def get_possible_actions_def actions_loop_ok)

lemma is_goal_ok: "wf_state s \<Longrightarrow> \<exists>b. is_goal s = Inr b"
  using is_goal_loop_ok [of "tiles s" "{}" "[source s]"]
  by (auto simp add: wf_state_def is_goal_def)

lemma get_connected_tiles_ok:
  assumes "known_kinds (tiles s)"
  shows "\<exists>connected. get_connected_tiles s = Inr connected \<and> card connected \<le> length (tiles s)"
proof -
  from get_connected_tiles_loop_ok [OF assms] obtain connected where
    c: "get_connected_tiles s = Inr connected"
    unfolding get_connected_tiles_def by blast
  then have "connected \<subseteq> fst ` set (tiles s)"
    unfolding get_connected_tiles_def by (rule get_connected_tiles_loop_subset) simp
  then have "card connected \<le> card (fst ` set (tiles s))"
    by (intro card_mono) simp_all
  also have "\<dots> \<le> card (set (tiles s))" by (intro card_image_le) simp
  also have "\<dots> \<le> length (tiles s)" by (rule card_length)
  finally show ?thesis using c by blast
qed

lemma heuristic_ok:
  assumes "known_kinds (tiles s)"
  shows "\<exists>h. heuristic s = Inr h \<and> - (10 * int (length (tiles s))) \<le> h"
proof -
  from get_connected_tiles_ok [OF assms] obtain connected where
    c: "get_connected_tiles s = Inr connected" and n: "card connected \<le> length (tiles s)"
    by blast
  have "heuristic s = Inr (- (10 * int (card connected)) + int (danglingCount s))"
    using c by (simp add: heuristic_def danglingCount_def fold_tiles_dangling)
  with n show ?thesis by simp
qed

lemma update_distinct_map:
  "distinct (map fst al) \<Longrightarrow> map_of al k = Some v0 \<Longrightarrow>
   AList.update k v al = map (\<lambda>item. if fst item = k then (k, v) else item) al"
proof (induction al)
  case Nil
  then show ?case by simp
next
  case (Cons item al)
  show ?case
  proof (cases "fst item = k")
    case True
    have "k \<notin> fst ` set al" using Cons.prems(1) True by auto
    then have "map (\<lambda>item. if fst item = k then (k, v) else item) al = al"
      by (intro map_idI) auto
    with True show ?thesis by (cases item) simp
  next
    case False
    with Cons show ?thesis by (cases item) auto
  qed
qed

lemma apply_action_same_board:
  assumes wf: "wf_state s" and board: "same_board s0 s"
    and gen: "get_possible_actions s = Inr as" and mem: "a \<in> set as"
  shows "\<exists>s1. apply_action s a = Inr s1 \<and> same_board s0 s1"
proof -
  from actions_loop_set [OF gen [unfolded get_possible_actions_def]] mem
  obtain p t variations where
    item: "(p, t) \<in> set (tiles s)" and v: "PIPE_TYPES (type t) = Some variations"
    and a: "a \<in> set (tile_actions (tiles s) p t variations)"
    by (auto split: option.splits)
  from a obtain rot where rot: "rot < length variations"
    and a_eq: "a = \<lparr>pos = p, rotation = int rot\<rparr>"
    unfolding set_tile_actions by blast
  have keys: "distinct (map fst (tiles s))" using wf by (simp add: wf_state_def)
  have look: "map_of (tiles s) (pos a) = Some t"
    using keys item a_eq by simp
  let ?v = "\<lparr>type = type t, rotation = int rot\<rparr>"
  let ?ts = "map (\<lambda>item. if fst item = p then (p, ?v) else item) (tiles s)"
  let ?s1 = "\<lparr>grid_size = grid_size s, tiles = ?ts, source = source s\<rparr>"
  have app: "apply_action s a = Inr ?s1"
    using look a_eq update_distinct_map [OF keys look, of ?v]
    by (simp add: apply_action_def rotate_def)
  have k: "map fst ?ts = map fst (tiles s)"
    by (rule nth_equalityI) auto
  have ty: "map (type \<circ> snd) ?ts = map (type \<circ> snd) (tiles s)"
  proof (rule nth_equalityI)
    show "length (map (type \<circ> snd) ?ts) = length (map (type \<circ> snd) (tiles s))" by simp
  next
    fix i assume "i < length (map (type \<circ> snd) ?ts)"
    then have i: "i < length (tiles s)" by simp
    then have "tiles s ! i \<in> set (tiles s)" by simp
    then have "fst (tiles s ! i) = p \<Longrightarrow> snd (tiles s ! i) = t"
      using keys item by (metis eq_key_imp_eq_value prod.collapse)
    with i show "map (type \<circ> snd) ?ts ! i = map (type \<circ> snd) (tiles s) ! i" by auto
  qed
  have "int rot \<in> {0..3}" using rot variant_count_le [OF v] by auto
  then have r: "\<forall>item \<in> set ?ts.
      tile.rotation (snd item) \<in> tile.rotation ` snd ` set (tiles s0) \<union> {0..3}"
    using board by (auto simp add: same_board_def)
  have "same_board s0 ?s1"
    using board k ty r by (simp add: same_board_def)
  with app show ?thesis by blast
qed

lemma run_emitted_append:
  "run_emitted s (p @ q) = (case run_emitted s p of None \<Rightarrow> None | Some s1 \<Rightarrow> run_emitted s1 q)"
  by (induction p arbitrary: s) (auto split: sum.splits)

lemma run_emitted_apply_actions:
  "run_emitted s p = Some s1 \<Longrightarrow> apply_actions s p = Inr s1"
  by (induction p arbitrary: s) (auto split: sum.splits if_splits)

lemma run_emitted_same_board:
  "wf_state s0 \<Longrightarrow> same_board s0 s \<Longrightarrow> run_emitted s p = Some s1 \<Longrightarrow> same_board s0 s1"
proof (induction p arbitrary: s)
  case Nil
  then show ?case by simp
next
  case (Cons a p)
  from Cons.prems(3) obtain as s2 where
    gen: "get_possible_actions s = Inr as" and mem: "a \<in> set as"
    and app: "apply_action s a = Inr s2" and rest: "run_emitted s2 p = Some s1"
    by (auto split: sum.splits if_splits)
  from apply_action_same_board [OF same_board_wf [OF Cons.prems(1,2)] Cons.prems(2) gen mem] app
  have "same_board s0 s2" by simp
  from Cons.IH [OF Cons.prems(1) this rest] show ?case .
qed

lemma tile_eqI:
  fixes a b :: tile
  shows "type a = type b \<Longrightarrow> tile.rotation a = tile.rotation b \<Longrightarrow> a = b"
  by (rule tile.equality) simp_all

lemma tiles_from_map:
  "distinct (map fst al) \<Longrightarrow> al = map (\<lambda>k. (k, the (map_of al k))) (map fst al)"
proof -
  assume d: "distinct (map fst al)"
  have "map (\<lambda>item. (fst item, the (map_of al (fst item)))) al = al"
  proof (rule map_idI)
    fix item assume "item \<in> set al"
    then have "map_of al (fst item) = Some (snd item)"
      using d by (metis map_of_is_SomeI prod.collapse)
    then show "(fst item, the (map_of al (fst item))) = item" by simp
  qed
  then show ?thesis by (simp add: comp_def)
qed

lemma hash_inj_same_board:
  assumes wf: "wf_state s0" and b1: "same_board s0 s1" and b2: "same_board s0 s2"
    and h: "hash s1 = hash s2"
  shows "s1 = s2"
proof -
  have d1: "distinct (map fst (tiles s1))" and d2: "distinct (map fst (tiles s2))"
    using wf b1 b2 by (simp_all add: wf_state_def same_board_def)
  have inj: "inj (\<lambda>(p :: position, t :: tile). (p, type t, tile.rotation t))"
    by (auto simp add: inj_on_def intro: tile_eqI)
  from h have "sort_key fst (tiles s1) = sort_key fst (tiles s2)"
    unfolding hash_def using inj by (simp add: inj_map_eq_map)
  then have "set (tiles s1) = set (tiles s2)" by (metis set_sort)
  then have m: "map_of (tiles s1) = map_of (tiles s2)"
    using d1 d2 by (simp add: map_of_inject_set)
  have k: "map fst (tiles s1) = map fst (tiles s2)"
    using b1 b2 by (simp add: same_board_def)
  have "tiles s1 = tiles s2"
    using tiles_from_map [OF d1] tiles_from_map [OF d2] m k by simp
  then show ?thesis using b1 b2 by (simp add: same_board_def)
qed

lemma finite_same_board: "finite {s. same_board s0 s}"
proof -
  let ?R = "tile.rotation ` snd ` set (tiles s0) \<union> {0..3}"
  let ?T = "(\<lambda>(k, r). \<lparr>type = k, rotation = r\<rparr>) ` ((type \<circ> snd) ` set (tiles s0) \<times> ?R)"
  let ?A = "fst ` set (tiles s0) \<times> ?T"
  let ?L = "{ts. set ts \<subseteq> ?A \<and> length ts = length (tiles s0)}"
  let ?S = "(\<lambda>ts. \<lparr>grid_size = grid_size s0, tiles = ts, source = source s0\<rparr>) ` ?L"
  have "finite ?A" by simp
  then have "finite ?L" by (rule finite_lists_length_eq)
  then have fin: "finite ?S" by simp
  have "{s. same_board s0 s} \<subseteq> ?S"
  proof
    fix s assume "s \<in> {s. same_board s0 s}"
    then have b: "same_board s0 s" by simp
    have len: "length (tiles s) = length (tiles s0)"
      using b by (metis length_map same_board_def)
    have "set (tiles s) \<subseteq> ?A"
    proof
      fix item assume i: "item \<in> set (tiles s)"
      have "map fst (tiles s) = map fst (tiles s0)" using b by (simp add: same_board_def)
      then have "fst ` set (tiles s) = fst ` set (tiles s0)" by (metis set_map)
      then have 1: "fst item \<in> fst ` set (tiles s0)" using i by blast
      have "map (type \<circ> snd) (tiles s) = map (type \<circ> snd) (tiles s0)"
        using b by (simp add: same_board_def)
      then have "(type \<circ> snd) ` set (tiles s) = (type \<circ> snd) ` set (tiles s0)"
        by (metis set_map)
      then have 2: "type (snd item) \<in> (type \<circ> snd) ` set (tiles s0)"
        using i by (metis comp_apply image_eqI)
      have 3: "tile.rotation (snd item) \<in> ?R" using b i by (simp add: same_board_def)
      have "snd item = (\<lambda>(k, r). \<lparr>type = k, rotation = r\<rparr>) (type (snd item), tile.rotation (snd item))"
        by simp
      with 2 3 have "snd item \<in> ?T" by (metis (no_types, lifting) SigmaI image_eqI)
      with 1 show "item \<in> ?A" by (metis SigmaI prod.collapse)
    qed
    with len have "tiles s \<in> ?L" by simp
    moreover have "s = \<lparr>grid_size = grid_size s0, tiles = tiles s, source = source s0\<rparr>"
      using b by (simp add: same_board_def)
    ultimately show "s \<in> ?S" by (metis (no_types, lifting) image_eqI)
  qed
  with fin show ?thesis by (rule rev_finite_subset)
qed

lemma wf_state_row: "wf_state (straight_end_row g r c e_rot)"
  by (simp add: wf_state_def known_kinds_def straight_end_row_def PIPE_TYPES_l PIPE_TYPES_e)

section \<open>Heuristic formula\<close>

text \<open>
  Claim C3. \<^verbatim>\<open>heuristic\<close> returns minus ten times the size of the connected set plus the
  dangling count of the specification; it raises only when \<^verbatim>\<open>get_connected_tiles\<close> does,
  and not at all when every kind is in the geometry table.
\<close>

theorem heuristic_formula:
  "heuristic state =
     (case get_connected_tiles state of
        Inl e \<Rightarrow> Inl e
      | Inr connectedSet \<Rightarrow> Inr (- (10 * int (card connectedSet)) + int (danglingCount state))) \<and>
   (known_kinds (tiles state) \<longrightarrow>
      (\<exists>connectedSet. get_connected_tiles state = Inr connectedSet \<and>
         heuristic state = Inr (- (10 * int (card connectedSet)) + int (danglingCount state))))"
proof -
  have 1: "heuristic state =
     (case get_connected_tiles state of
        Inl e \<Rightarrow> Inl e
      | Inr connectedSet \<Rightarrow> Inr (- (10 * int (card connectedSet)) + int (danglingCount state)))"
    by (simp add: heuristic_def danglingCount_def fold_tiles_dangling split: sum.splits)
  have 2: "\<exists>connectedSet. get_connected_tiles state = Inr connectedSet \<and>
         heuristic state = Inr (- (10 * int (card connectedSet)) + int (danglingCount state))"
    if "known_kinds (tiles state)"
  proof -
    from get_connected_tiles_ok [OF that] obtain connectedSet where
      "get_connected_tiles state = Inr connectedSet" by blast
    with 1 show ?thesis by simp
  qed
  from 1 2 show ?thesis by blast
qed

theorem heuristic_formula_witness:
  "known_kinds (tiles (straight_end_row 2 0 0 1)) \<and>
   get_connected_tiles (straight_end_row 2 0 0 1) = Inr {(0, 0)} \<and>
   danglingCount (straight_end_row 2 0 0 1) = 3 \<and>
   heuristic (straight_end_row 2 0 0 1) = Inr (- 7)"
proof -
  have k: "known_kinds (tiles (straight_end_row 2 0 0 1))"
    using wf_state_row [of 2 0 0 1] by (simp add: wf_state_def)
  have c: "get_connected_tiles (straight_end_row 2 0 0 1) = Inr {(0, 0)}"
    by (simp add: straight_end_row_def eval_defs)
  have d: "danglingCount (straight_end_row 2 0 0 1) = 3"
    by (simp add: straight_end_row_def danglingCount_def dangling_def eval_defs)
  from heuristic_formula [of "straight_end_row 2 0 0 1"] k c d
  have "heuristic (straight_end_row 2 0 0 1) = Inr (- 7)" by simp
  with k c d show ?thesis by blast
qed

section \<open>The search loop\<close>

text \<open>
  \<^verbatim>\<open>heappop\<close> takes an entry out of the frontier; the \<^verbatim>\<open>for\<close> loop adds one entry
  per emitted action, with a path one action longer and a counter not used before. With
  distinct counters the popped entry is strictly below every other entry in the order of the
  pairs \<open>(f, counter)\<close>. One iteration from a configuration that satisfies the invariant
  returns a path of emitted actions to a goal state, or leads to a configuration that
  satisfies the invariant and is smaller in the termination order.
\<close>

lemma heappop_props:
  assumes "frontier \<noteq> []" and "heappop frontier = Inr (item, frontier1)"
  shows "item \<in> set frontier" and "set frontier1 \<subseteq> set frontier"
    and "set frontier \<subseteq> insert item (set frontier1)"
    and "length frontier1 < length frontier"
proof -
  let ?key = "\<lambda>(f :: int, counter :: nat, state :: game_state, path :: action list). (f, counter)"
  have i: "item = arg_min_list ?key frontier" and r: "frontier1 = remove1 item frontier"
    using assms(1,2) by (auto simp add: heappop_def Let_def)
  show m: "item \<in> set frontier" unfolding i using assms(1) by (rule arg_min_list_in)
  show "set frontier1 \<subseteq> set frontier" unfolding r by (rule set_remove1_subset)
  show "set frontier \<subseteq> insert item (set frontier1)"
    unfolding r by (metis in_set_remove1 insertCI subsetI)
  show "length frontier1 < length frontier"
    unfolding r using m assms(1) by (simp add: length_remove1)
qed

lemma push_successors_props:
  assumes "\<forall>a \<in> set as. \<exists>s1. apply_action s a = Inr s1 \<and> known_kinds (tiles s1)"
  shows "\<exists>frontier1 counter1.
     push_successors s g path as frontier counter = Inr (frontier1, counter1) \<and>
     set frontier \<subseteq> set frontier1 \<and>
     (\<forall>n \<in> set frontier1 - set frontier.
        \<exists>a \<in> set as. \<exists>s1 h k. apply_action s a = Inr s1 \<and> heuristic s1 = Inr h \<and>
           n = (g + 1 + h, k, s1, path @ [a])) \<and>
     (\<forall>a \<in> set as. \<forall>s1. apply_action s a = Inr s1 \<longrightarrow> s1 \<in> node_state ` set frontier1)"
  using assms
proof (induction as arbitrary: frontier counter)
  case Nil
  then show ?case by simp
next
  case (Cons a as)
  from Cons.prems obtain s1 where app: "apply_action s a = Inr s1"
    and kk: "known_kinds (tiles s1)" by auto
  from heuristic_ok [OF kk] obtain h where h: "heuristic s1 = Inr h" by blast
  let ?n = "(g + 1 + h, counter + 1, s1, path @ [a])"
  have rest: "\<forall>a \<in> set as. \<exists>s1. apply_action s a = Inr s1 \<and> known_kinds (tiles s1)"
    using Cons.prems by simp
  from Cons.IH [OF rest, of "heappush frontier ?n" "counter + 1"]
  obtain frontier1 counter1 where
    p: "push_successors s g path as (heappush frontier ?n) (counter + 1) = Inr (frontier1, counter1)"
    and sub: "set (heappush frontier ?n) \<subseteq> set frontier1"
    and new: "\<forall>n \<in> set frontier1 - set (heappush frontier ?n).
        \<exists>a \<in> set as. \<exists>s1 h k. apply_action s a = Inr s1 \<and> heuristic s1 = Inr h \<and>
           n = (g + 1 + h, k, s1, path @ [a])"
    and all: "\<forall>a \<in> set as. \<forall>s1. apply_action s a = Inr s1 \<longrightarrow> s1 \<in> node_state ` set frontier1"
    by blast
  have eq: "push_successors s g path (a # as) frontier counter = Inr (frontier1, counter1)"
    using app h p by (simp add: Let_def)
  have hp: "set (heappush frontier ?n) = insert ?n (set frontier)"
    by (simp add: heappush_def)
  have 1: "set frontier \<subseteq> set frontier1" using sub hp by auto
  have 2: "\<forall>n \<in> set frontier1 - set frontier.
        \<exists>b \<in> set (a # as). \<exists>s1 h k. apply_action s b = Inr s1 \<and> heuristic s1 = Inr h \<and>
           n = (g + 1 + h, k, s1, path @ [b])"
  proof
    fix n assume n: "n \<in> set frontier1 - set frontier"
    show "\<exists>b \<in> set (a # as). \<exists>s1 h k. apply_action s b = Inr s1 \<and> heuristic s1 = Inr h \<and>
           n = (g + 1 + h, k, s1, path @ [b])"
    proof (cases "n = ?n")
      case True
      with app h show ?thesis by auto
    next
      case False
      with n hp have "n \<in> set frontier1 - set (heappush frontier ?n)" by simp
      with new show ?thesis by (meson list.set_intros(2))
    qed
  qed
  have "?n \<in> set frontier1" using sub hp by auto
  then have "s1 \<in> node_state ` set frontier1" by force
  with all app have 3: "\<forall>b \<in> set (a # as). \<forall>s1. apply_action s b = Inr s1 \<longrightarrow>
      s1 \<in> node_state ` set frontier1" by auto
  from eq 1 2 3 show ?case by blast
qed

lemma fresh_counters_remove1:
  "fresh_counters frontier counter \<Longrightarrow> fresh_counters (remove1 item frontier) counter"
proof -
  assume a: "fresh_counters frontier counter"
  then have d: "distinct frontier" and i: "inj_on node_counter (set frontier)"
    by (simp_all add: fresh_counters_def distinct_map)
  have "inj_on node_counter (set (remove1 item frontier))"
    using i set_remove1_subset by (rule inj_on_subset)
  moreover have "distinct (remove1 item frontier)" using d by simp
  moreover have "\<forall>n \<in> set (remove1 item frontier). node_counter n \<le> counter"
    using a set_remove1_subset [of item frontier] by (auto simp add: fresh_counters_def)
  ultimately show ?thesis by (simp add: fresh_counters_def distinct_map)
qed

lemma heappop_fresh_counters:
  "heappop frontier = Inr (item, frontier1) \<Longrightarrow> fresh_counters frontier counter \<Longrightarrow>
   fresh_counters frontier1 counter"
proof -
  assume "heappop frontier = Inr (item, frontier1)"
  then have "frontier1 = remove1 item frontier"
    by (auto simp add: heappop_def Let_def split: if_splits)
  moreover assume "fresh_counters frontier counter"
  ultimately show ?thesis by (simp add: fresh_counters_remove1)
qed

lemma push_successors_counters:
  "push_successors s g path as frontier counter = Inr (frontier1, counter1) \<Longrightarrow>
   fresh_counters frontier counter \<Longrightarrow> fresh_counters frontier1 counter1"
proof (induction as arbitrary: frontier counter)
  case Nil
  then show ?case by simp
next
  case (Cons a as)
  from Cons.prems(1) obtain s1 h where
    p: "push_successors s g path as (heappush frontier (g + 1 + h, counter + 1, s1, path @ [a]))
          (counter + 1) = Inr (frontier1, counter1)"
    by (auto simp add: Let_def split: sum.splits)
  have d: "distinct (map node_counter frontier)"
    and le: "\<forall>n \<in> set frontier. node_counter n \<le> counter"
    using Cons.prems(2) by (simp_all add: fresh_counters_def)
  have "counter + 1 \<notin> node_counter ` set frontier"
  proof
    assume "counter + 1 \<in> node_counter ` set frontier"
    then obtain n where "n \<in> set frontier" "node_counter n = counter + 1" by force
    with le show False by force
  qed
  moreover have "\<forall>n \<in> set frontier. node_counter n \<le> counter + 1"
    using le by force
  ultimately have
    "fresh_counters (heappush frontier (g + 1 + h, counter + 1, s1, path @ [a])) (counter + 1)"
    using d by (simp add: fresh_counters_def heappush_def)
  with p show ?case by (rule Cons.IH)
qed

lemma heappop_strict_min:
  assumes "frontier \<noteq> []" and "heappop frontier = Inr (item, frontier1)"
    and "fresh_counters frontier counter"
  shows "\<forall>m \<in> set frontier1. (fst item, node_counter item) < (fst m, node_counter m)"
proof
  fix m assume m: "m \<in> set frontier1"
  let ?key = "\<lambda>(f :: int, counter :: nat, state :: game_state, path :: action list). (f, counter)"
  have i: "item = arg_min_list ?key frontier" and r: "frontier1 = remove1 item frontier"
    using assms(1,2) by (auto simp add: heappop_def Let_def)
  have d: "distinct (map node_counter frontier)" using assms(3) by (simp add: fresh_counters_def)
  then have df: "distinct frontier" by (simp add: distinct_map)
  have mf: "m \<in> set frontier" and ne: "m \<noteq> item"
    using m r df by auto
  have "item \<in> set frontier" unfolding i using assms(1) by (rule arg_min_list_in)
  with mf ne d have c: "node_counter m \<noteq> node_counter item"
    by (metis (no_types, lifting) distinct_map inj_on_def)
  have "?key item = Min (?key ` set frontier)"
    unfolding i using assms(1) by (rule f_arg_min_list_f)
  moreover have "Min (?key ` set frontier) \<le> ?key m"
    using mf by (intro Min_le) simp_all
  ultimately have "?key item \<le> ?key m" by simp
  then have "(fst item, node_counter item) \<le> (fst m, node_counter m)"
    by (simp add: case_prod_beta)
  with c show "(fst item, node_counter item) < (fst m, node_counter m)"
    by (metis less_le prod.inject)
qed

lemma sum_decrease_at:
  fixes g g' :: "'a \<Rightarrow> nat"
  assumes "finite A" and "k \<in> A" and "g' k < g k" and "\<forall>x \<in> A - {k}. g' x = g x"
  shows "sum g' A < sum g A"
proof -
  have "sum g' A = g' k + sum g' (A - {k})" using assms(1,2) by (rule sum.remove)
  also have "sum g' (A - {k}) = sum g (A - {k})" using assms(4) by (intro sum.cong) simp_all
  also have "g' k + sum g (A - {k}) < g k + sum g (A - {k})" using assms(3) by simp
  also have "g k + sum g (A - {k}) = sum g A" using assms(1,2) by (rule sum.remove [symmetric])
  finally show ?thesis .
qed

lemma wf_search_order: "wf (search_order s0)"
  unfolding search_order_def by (intro wf_inv_image wf_lex_prod wf_less_than)

lemma covered_pop:
  assumes "covered frontier explored s1" and "set frontier \<subseteq> insert n (set frontier1)"
    and "hash (node_state n) \<in> dom explored1" and "dom explored \<subseteq> dom explored1"
    and "set frontier1 \<subseteq> set frontier2"
  shows "covered frontier2 explored1 s1"
proof (cases "hash s1 \<in> dom explored")
  case True
  with assms(4) show ?thesis by (auto simp add: covered_def)
next
  case False
  with assms(1) obtain m where m: "m \<in> set frontier" "s1 = node_state m"
    unfolding covered_def by blast
  show ?thesis
  proof (cases "m = n")
    case True
    with m assms(3) show ?thesis by (simp add: covered_def)
  next
    case False
    with m(1) assms(2,5) have "m \<in> set frontier2" by auto
    with m(2) show ?thesis by (auto simp add: covered_def)
  qed
qed

lemma solve_step_inv:
  assumes wf: "wf_state s0" and inv: "search_inv s0 (frontier, explored, counter)"
    and ne: "frontier \<noteq> []"
  shows "(\<exists>path s. solve_step (frontier, explored, counter) = Inl (Inr (Some path)) \<and>
            run_emitted s0 path = Some s \<and> is_goal s = Inr True) \<or>
         (\<exists>cfg1. solve_step (frontier, explored, counter) = Inr cfg1 \<and> search_inv s0 cfg1 \<and>
            (cfg1, (frontier, explored, counter)) \<in> search_order s0)"
proof -
  let ?K = "hash ` {s. same_board s0 s}"
  let ?low = "- (10 * int (length (tiles s0)))"
  have finK: "finite ?K" using finite_same_board by simp
  from inv have
    i1: "\<forall>n \<in> set frontier. run_emitted s0 (node_path n) = Some (node_state n) \<and> ?low \<le> fst n"
    and i2: "\<forall>s. same_board s0 s \<and> hash s \<in> dom explored \<longrightarrow>
           is_goal s = Inr False \<and> (\<forall>s1. successor s s1 \<longrightarrow> covered frontier explored s1)"
    and i3: "dom explored \<subseteq> ?K"
    and i4: "\<forall>k f. explored k = Some f \<longrightarrow> ?low \<le> f"
    and i5: "covered frontier explored s0"
    and i6: "fresh_counters frontier counter"
    by (simp_all add: search_inv_def)
  define item where
    "item = arg_min_list (\<lambda>(f :: int, counter :: nat, state :: game_state, path :: action list).
       (f, counter)) frontier"
  have "heappop frontier = Inr (item, remove1 item frontier)"
    using ne by (simp add: heappop_def Let_def item_def)
  then obtain f k s p frontier1 where pop: "heappop frontier = Inr ((f, k, s, p), frontier1)"
    by (metis prod.exhaust)
  note hp = heappop_props [OF ne pop]
  have i6': "fresh_counters frontier1 counter" using pop i6 by (rule heappop_fresh_counters)
  from i1 hp(1) have run: "run_emitted s0 p = Some s" and low: "?low \<le> f" by auto
  have board: "same_board s0 s"
    using run_emitted_same_board [OF wf same_board_refl run] .
  have wfs: "wf_state s" using same_board_wf [OF wf board] .
  from is_goal_ok [OF wfs] obtain b where goal: "is_goal s = Inr b" by blast
  show ?thesis
  proof (cases b)
    case True
    have "solve_step (frontier, explored, counter) = Inl (Inr (Some p))"
      using pop goal True by (simp add: solve_step_def)
    moreover have "is_goal s = Inr True" using goal True by simp
    ultimately show ?thesis using run by blast
  next
    case ng: False
    show ?thesis
    proof (cases "\<exists>f0. explored (hash s) = Some f0 \<and> f0 \<le> f")
      case True
      have step: "solve_step (frontier, explored, counter) = Inr (frontier1, explored, counter)"
        using pop goal ng True by (auto simp add: solve_step_def)
      have hs: "hash s \<in> dom explored" using True by auto
      have c: "covered frontier1 explored s1" if "covered frontier explored s1" for s1
        using that hp(3) by (rule covered_pop) (use hs in simp_all)
      have "search_inv s0 (frontier1, explored, counter)"
        unfolding search_inv_def using i1 i2 i3 i4 i5 i6' hp(2) c by auto
      moreover have "((frontier1, explored, counter), (frontier, explored, counter)) \<in> search_order s0"
        using hp(4) by (simp add: search_order_def search_measure_def)
      ultimately show ?thesis using step by blast
    next
      case stale: False
      from get_possible_actions_ok [OF wfs] obtain as where gen: "get_possible_actions s = Inr as"
        by blast
      have succ_ok: "\<forall>a \<in> set as. \<exists>s1. apply_action s a = Inr s1 \<and> known_kinds (tiles s1)"
      proof
        fix a assume "a \<in> set as"
        from apply_action_same_board [OF wfs board gen this] obtain s1 where
          "apply_action s a = Inr s1" "same_board s0 s1" by blast
        with same_board_wf [OF wf] show "\<exists>s1. apply_action s a = Inr s1 \<and> known_kinds (tiles s1)"
          by (auto simp add: wf_state_def)
      qed
      from push_successors_props [OF succ_ok, of "int (length p)" p frontier1 counter]
      obtain frontier2 counter2 where
        push: "push_successors s (int (length p)) p as frontier1 counter = Inr (frontier2, counter2)"
        and sub: "set frontier1 \<subseteq> set frontier2"
        and new: "\<forall>n \<in> set frontier2 - set frontier1.
          \<exists>a \<in> set as. \<exists>s1 h k. apply_action s a = Inr s1 \<and> heuristic s1 = Inr h \<and>
             n = (int (length p) + 1 + h, k, s1, p @ [a])"
        and all: "\<forall>a \<in> set as. \<forall>s1. apply_action s a = Inr s1 \<longrightarrow>
          s1 \<in> node_state ` set frontier2"
        by blast
      let ?ex = "explored(hash s \<mapsto> f)"
      have step: "solve_step (frontier, explored, counter) = Inr (frontier2, ?ex, counter2)"
        using pop goal ng stale gen push
        by (auto simp add: solve_step_def split: option.splits)
      have j1: "\<forall>n \<in> set frontier2.
           run_emitted s0 (node_path n) = Some (node_state n) \<and> ?low \<le> fst n"
      proof
        fix n assume n: "n \<in> set frontier2"
        show "run_emitted s0 (node_path n) = Some (node_state n) \<and> ?low \<le> fst n"
        proof (cases "n \<in> set frontier1")
          case True
          with hp(2) i1 show ?thesis by blast
        next
          case False
          with n new obtain a s1 h k1 where a: "a \<in> set as"
            and app: "apply_action s a = Inr s1" and h: "heuristic s1 = Inr h"
            and n_eq: "n = (int (length p) + 1 + h, k1, s1, p @ [a])" by blast
          have r: "run_emitted s0 (p @ [a]) = Some s1"
            using run gen a app by (simp add: run_emitted_append)
          from apply_action_same_board [OF wfs board gen a] app
          have b1: "same_board s0 s1" by simp
          then have len: "length (tiles s1) = length (tiles s0)"
            by (metis length_map same_board_def)
          from heuristic_ok [of s1] same_board_wf [OF wf b1] h
          have "- (10 * int (length (tiles s1))) \<le> h" by (auto simp add: wf_state_def)
          with len have "?low \<le> int (length p) + 1 + h" by simp
          with r n_eq show ?thesis by simp
        qed
      qed
      have c: "covered frontier2 ?ex s1" if "covered frontier explored s1" for s1
        using that hp(3) by (rule covered_pop) (use sub in auto)
      have j2: "\<forall>s2. same_board s0 s2 \<and> hash s2 \<in> dom ?ex \<longrightarrow>
           is_goal s2 = Inr False \<and> (\<forall>s1. successor s2 s1 \<longrightarrow> covered frontier2 ?ex s1)"
      proof (intro allI impI)
        fix s2 assume a: "same_board s0 s2 \<and> hash s2 \<in> dom ?ex"
        show "is_goal s2 = Inr False \<and> (\<forall>s1. successor s2 s1 \<longrightarrow> covered frontier2 ?ex s1)"
        proof (cases "hash s2 = hash s")
          case True
          with a have "s2 = s" using hash_inj_same_board [OF wf _ board] by blast
          moreover have "\<forall>s1. successor s s1 \<longrightarrow> covered frontier2 ?ex s1"
            using all gen by (auto simp add: successor_def covered_def)
          ultimately show ?thesis using goal ng by simp
        next
          case False
          with a have "same_board s0 s2 \<and> hash s2 \<in> dom explored" by auto
          with i2 c show ?thesis by blast
        qed
      qed
      have j3: "dom ?ex \<subseteq> ?K" using i3 board by auto
      have j4: "\<forall>k f0. ?ex k = Some f0 \<longrightarrow> ?low \<le> f0" using i4 low by auto
      have j5: "covered frontier2 ?ex s0" using i5 by (rule c)
      have j6: "fresh_counters frontier2 counter2" using push i6' by (rule push_successors_counters)
      have inv1: "search_inv s0 (frontier2, ?ex, counter2)"
        unfolding search_inv_def using j1 j2 j3 j4 j5 j6 by simp
      have less: "((frontier2, ?ex, counter2), (frontier, explored, counter)) \<in> search_order s0"
      proof (cases "explored (hash s)")
        case None
        then have "hash s \<in> ?K - dom explored" using board by auto
        then have "card (?K - dom ?ex) < card (?K - dom explored)"
          using finK by (metis Diff_insert card_Diff1_less dom_fun_upd finite_Diff option.distinct(1))
        then show ?thesis by (simp add: search_order_def search_measure_def)
      next
        case (Some f0)
        with stale have lt: "f < f0" by auto
        have d: "dom ?ex = dom explored" using Some by auto
        have fin: "finite (dom explored)" using i3 finK by (rule finite_subset)
        have "(\<Sum>k \<in> dom explored. nat (the (?ex k) + 10 * int (length (tiles s0)))) <
              (\<Sum>k \<in> dom explored. nat (the (explored k) + 10 * int (length (tiles s0))))"
        proof (rule sum_decrease_at [OF fin, of "hash s"])
          show "hash s \<in> dom explored" using Some by auto
          show "nat (the (?ex (hash s)) + 10 * int (length (tiles s0))) <
                nat (the (explored (hash s)) + 10 * int (length (tiles s0)))"
            using Some lt low by simp
          show "\<forall>x \<in> dom explored - {hash s}.
             nat (the (?ex x) + 10 * int (length (tiles s0))) =
             nat (the (explored x) + 10 * int (length (tiles s0)))" by simp
        qed
        then show ?thesis using d by (simp add: search_order_def search_measure_def)
      qed
      from step inv1 less show ?thesis by blast
    qed
  qed
qed

lemma search_inv_pop_least:
  assumes "search_inv s0 (frontier, explored, counter)" and "frontier \<noteq> []"
    and "heappop frontier = Inr (item, frontier1)"
  shows "\<forall>m \<in> set frontier1. (fst item, node_counter item) < (fst m, node_counter m)"
proof -
  have "fresh_counters frontier counter" using assms(1) by (simp add: search_inv_def)
  with assms(2,3) show ?thesis by (rule heappop_strict_min)
qed

lemma search_inv_initial: "search_inv s0 (initial_frontier s0, Map.empty, 0)"
  by (simp add: search_inv_def initial_frontier_def heappush_def covered_def fresh_counters_def)

lemma exhausted_explored:
  assumes wf: "wf_state s0" and inv: "search_inv s0 ([], explored, counter)"
  shows "run_emitted s0 path = Some s \<Longrightarrow> hash s \<in> dom explored"
proof (induction path arbitrary: s rule: rev_induct)
  case Nil
  with inv show ?case by (simp add: search_inv_def covered_def)
next
  case (snoc a path)
  from snoc.prems obtain s2 where r: "run_emitted s0 path = Some s2"
    and last: "run_emitted s2 [a] = Some s"
    by (auto simp add: run_emitted_append split: option.splits)
  from last have "successor s2 s"
    by (auto simp add: successor_def split: sum.splits if_splits)
  moreover have "same_board s0 s2"
    using run_emitted_same_board [OF wf same_board_refl r] .
  moreover have "hash s2 \<in> dom explored" using snoc.IH [OF r] .
  ultimately have "covered [] explored s" using inv by (simp add: search_inv_def)
  then show ?case by (simp add: covered_def)
qed

lemma exhausted_no_goal:
  assumes wf: "wf_state s0" and inv: "search_inv s0 ([], explored, counter)"
  shows "\<not> solvable_by_generator s0"
proof
  assume "solvable_by_generator s0"
  then obtain path s where r: "run_emitted s0 path = Some s" and g: "is_goal s = Inr True"
    by (auto simp add: solvable_by_generator_def)
  have "hash s \<in> dom explored" using exhausted_explored [OF wf inv r] .
  moreover have "same_board s0 s" using run_emitted_same_board [OF wf same_board_refl r] .
  ultimately have "is_goal s = Inr False" using inv by (simp add: search_inv_def)
  with g show False by simp
qed

lemma solve_loop_correct:
  assumes wf: "wf_state s0"
  shows "search_inv s0 cfg \<Longrightarrow>
     \<exists>r. solve_loop cfg = Some (Inr r) \<and>
       (case r of
          None \<Rightarrow> \<not> solvable_by_generator s0
        | Some path \<Rightarrow> \<exists>s. run_emitted s0 path = Some s \<and> is_goal s = Inr True)"
proof (induction cfg rule: wf_induct_rule [OF wf_search_order [of s0]])
  case (1 cfg)
  obtain frontier explored counter where cfg: "cfg = (frontier, explored, counter)"
    by (cases cfg)
  show ?case
  proof (cases "frontier = []")
    case True
    have "solve_loop cfg = Some (Inr None)"
      using True cfg by (subst solve_loop.simps) simp
    moreover have "\<not> solvable_by_generator s0"
      using exhausted_no_goal [OF wf] "1.prems" True cfg by blast
    ultimately show ?thesis by simp
  next
    case False
    from solve_step_inv [OF wf "1.prems" [unfolded cfg] False]
    consider (found) path s where
        "solve_step (frontier, explored, counter) = Inl (Inr (Some path))"
        "run_emitted s0 path = Some s" "is_goal s = Inr True"
      | (continue) cfg1 where
        "solve_step (frontier, explored, counter) = Inr cfg1" "search_inv s0 cfg1"
        "(cfg1, (frontier, explored, counter)) \<in> search_order s0"
      by blast
    then show ?thesis
    proof cases
      case found
      have "solve_loop cfg = Some (Inr (Some path))"
        using False cfg found(1) by (subst solve_loop.simps) simp
      with found(2,3) show ?thesis by simp
    next
      case continue
      have "solve_loop cfg = solve_loop cfg1"
        using False cfg continue(1) by (subst solve_loop.simps) simp
      with "1.IH" [OF continue(3) [folded cfg] continue(2)] show ?thesis by simp
    qed
  qed
qed

section \<open>Solver contract\<close>

text \<open>
  From a well-formed initial state \<^verbatim>\<open>solve\<close> returns, without raising; it returns a
  path exactly when the generator can lead to a goal state, and the path is then a path of
  emitted actions to a goal state.
\<close>

lemma solve_characterisation:
  assumes "wf_state s0"
  shows "\<exists>r. solve s0 = Some (Inr r) \<and>
     (solvable_by_generator s0 \<longrightarrow>
        (\<exists>path s. r = Some path \<and> run_emitted s0 path = Some s \<and>
           apply_actions s0 path = Inr s \<and> is_goal s = Inr True)) \<and>
     (\<not> solvable_by_generator s0 \<longrightarrow> r = None)"
proof -
  from solve_loop_correct [OF assms search_inv_initial] obtain r where
    r: "solve s0 = Some (Inr r)"
    and post: "case r of
          None \<Rightarrow> \<not> solvable_by_generator s0
        | Some path \<Rightarrow> \<exists>s. run_emitted s0 path = Some s \<and> is_goal s = Inr True"
    unfolding solve_def by blast
  show ?thesis
  proof (cases r)
    case None
    with r post show ?thesis by simp
  next
    case (Some path)
    with post obtain s where s: "run_emitted s0 path = Some s" "is_goal s = Inr True" by auto
    then have "solvable_by_generator s0" by (auto simp add: solvable_by_generator_def)
    with r Some s run_emitted_apply_actions [OF s(1)] show ?thesis by simp
  qed
qed

lemma solvable_by_generator_solvable: "solvable_by_generator s0 \<Longrightarrow> solvable s0"
  unfolding solvable_by_generator_def solvable_def
  using run_emitted_apply_actions by blast

text \<open>
  Claim C1 as stated fails: the two adjacent End tiles of \<^const>\<open>two_ends\<close> reach a goal
  state by two actions, the generator emits neither of them (each turns an End tile towards
  an End tile), and \<^verbatim>\<open>solve\<close> returns \<^verbatim>\<open>None\<close>.
\<close>

lemma two_ends_solve: "solve two_ends = Some (Inr None)"
  by code_simp

theorem pruned_solution_counterexample:
  "wf_state two_ends \<and>
   apply_actions two_ends [\<lparr>pos = (0, 0), rotation = 1\<rparr>, \<lparr>pos = (0, 1), rotation = 3\<rparr>] =
     Inr \<lparr>grid_size = 2,
          tiles = [((0, 0), \<lparr>type = ''e'', rotation = 1\<rparr>), ((0, 1), \<lparr>type = ''e'', rotation = 3\<rparr>)],
          source = (0, 0)\<rparr> \<and>
   is_goal \<lparr>grid_size = 2,
          tiles = [((0, 0), \<lparr>type = ''e'', rotation = 1\<rparr>), ((0, 1), \<lparr>type = ''e'', rotation = 3\<rparr>)],
          source = (0, 0)\<rparr> = Inr True \<and>
   solve two_ends = Some (Inr None)"
  using two_ends_solve
  by (simp add: two_ends_def eval_defs wf_state_def known_kinds_def)

text \<open>
  Claim C1, amended. For every well-formed initial state \<^verbatim>\<open>solve\<close> terminates without
  raising. When a goal state can be reached by actions the generator emits, it returns an
  action sequence, and folding \<^verbatim>\<open>apply_action\<close> over it from the initial state gives a
  state where \<^verbatim>\<open>is_goal\<close> is true; every sequence it returns is such a sequence of
  emitted actions. When no action sequence at all leads to a goal state, it returns
  \<^verbatim>\<open>None\<close>.
\<close>

theorem solve_contract:
  assumes "wf_state s0"
  shows "\<exists>r. solve s0 = Some (Inr r) \<and>
     (solvable_by_generator s0 \<longrightarrow>
        (\<exists>path s. r = Some path \<and> apply_actions s0 path = Inr s \<and> is_goal s = Inr True)) \<and>
     (\<forall>path. r = Some path \<longrightarrow>
        (\<exists>s. run_emitted s0 path = Some s \<and> apply_actions s0 path = Inr s \<and>
           is_goal s = Inr True)) \<and>
     (\<not> solvable s0 \<longrightarrow> r = None)"
proof -
  from solve_characterisation [OF assms] obtain r where
    r: "solve s0 = Some (Inr r)"
    and yes: "solvable_by_generator s0 \<longrightarrow>
        (\<exists>path s. r = Some path \<and> run_emitted s0 path = Some s \<and>
           apply_actions s0 path = Inr s \<and> is_goal s = Inr True)"
    and no: "\<not> solvable_by_generator s0 \<longrightarrow> r = None"
    by blast
  have 1: "solvable_by_generator s0 \<longrightarrow>
        (\<exists>path s. r = Some path \<and> apply_actions s0 path = Inr s \<and> is_goal s = Inr True)"
    using yes by blast
  have 2: "\<forall>path. r = Some path \<longrightarrow>
        (\<exists>s. run_emitted s0 path = Some s \<and> apply_actions s0 path = Inr s \<and>
           is_goal s = Inr True)"
    using yes no by (cases "solvable_by_generator s0") auto
  have 3: "\<not> solvable s0 \<longrightarrow> r = None"
    using no solvable_by_generator_solvable by blast
  from r 1 2 3 show ?thesis by blast
qed

theorem solve_contract_witness:
  "wf_state (straight_end_row 2 0 0 1) \<and>
   solvable_by_generator (straight_end_row 2 0 0 1) \<and>
   (\<exists>path s. solve (straight_end_row 2 0 0 1) = Some (Inr (Some path)) \<and>
      apply_actions (straight_end_row 2 0 0 1) path = Inr s \<and> is_goal s = Inr True)"
proof -
  have h: "wf_state (straight_end_row 2 0 0 1)" by (rule wf_state_row)
  have "run_emitted (straight_end_row 2 0 0 1) [\<lparr>pos = (0, 1), rotation = 3\<rparr>] =
      Some (straight_end_row 2 0 0 3)"
    by (simp add: straight_end_row_def eval_defs)
  moreover have "is_goal (straight_end_row 2 0 0 3) = Inr True"
    by (simp add: straight_end_row_def eval_defs)
  ultimately have g: "solvable_by_generator (straight_end_row 2 0 0 1)"
    unfolding solvable_by_generator_def by blast
  from solve_contract [OF h] g
  have "\<exists>path s. solve (straight_end_row 2 0 0 1) = Some (Inr (Some path)) \<and>
      apply_actions (straight_end_row 2 0 0 1) path = Inr s \<and> is_goal s = Inr True"
    by blast
  with h g show ?thesis by blast
qed

section \<open>The initial push\<close>

lemma initial_frontier_entry: "initial_frontier s0 = [(0, 0, s0, [])]"
  by (simp add: initial_frontier_def heappush_def)

lemma two_ends_heuristic: "heuristic two_ends = Inr (- 8)"
  by (simp add: two_ends_def eval_defs)

lemma two_ends_revisit:
  "(case solve_steps 5 (initial_frontier two_ends, Map.empty, 0) of
      Inl r \<Rightarrow> False
    | Inr (frontier, explored, counter) \<Rightarrow>
        length frontier = 16 \<and> counter = 20 \<and>
        explored (hash two_ends) = Some 0 \<and>
        map_sum id fst (heappop frontier) =
          Inr (- 6, 5, two_ends, [\<lparr>pos = (0, 0), rotation = 2\<rparr>, \<lparr>pos = (0, 0), rotation = 0\<rparr>]) \<and>
        (case solve_step (frontier, explored, counter) of
           Inl r \<Rightarrow> False
         | Inr (frontier1, explored1, counter1) \<Rightarrow>
             length frontier1 = 19 \<and> counter1 = 24 \<and> explored1 (hash two_ends) = Some (- 6)) \<and>
        (case solve_step (frontier, explored(hash two_ends \<mapsto> - 8), counter) of
           Inl r \<Rightarrow> False
         | Inr (frontier1, explored1, counter1) \<Rightarrow>
             length frontier1 = 15 \<and> counter1 = 20 \<and> explored1 (hash two_ends) = Some (- 8)))"
  by code_simp

text \<open>
  Claim C5. The initial state should be pushed with \<open>g = 0\<close>, the empty path and the
  heuristic of the initial state as its priority. \<^verbatim>\<open>solve\<close> pushes it with priority 0,
  where the push of a successor adds the heuristic: for \<^const>\<open>two_ends\<close> the heuristic is
  \<open>-8\<close>. The 0 is what the explored map records for the initial state, and the stale test
  does not hold against it: after five iterations the least entry is the initial state again,
  reached by two actions with priority \<open>-6\<close>, and it is expanded a second time (four more
  entries, the record lowered to \<open>-6\<close>). With the heuristic \<open>-8\<close> in the explored map
  the same entry is discarded.
\<close>

theorem initial_priority_defect:
  "initial_frontier two_ends = [(0, 0, two_ends, [])] \<and>
   heuristic two_ends = Inr (- 8) \<and>
   (case solve_steps 5 (initial_frontier two_ends, Map.empty, 0) of
      Inl r \<Rightarrow> False
    | Inr (frontier, explored, counter) \<Rightarrow>
        length frontier = 16 \<and> counter = 20 \<and>
        explored (hash two_ends) = Some 0 \<and>
        map_sum id fst (heappop frontier) =
          Inr (- 6, 5, two_ends, [\<lparr>pos = (0, 0), rotation = 2\<rparr>, \<lparr>pos = (0, 0), rotation = 0\<rparr>]) \<and>
        (case solve_step (frontier, explored, counter) of
           Inl r \<Rightarrow> False
         | Inr (frontier1, explored1, counter1) \<Rightarrow>
             length frontier1 = 19 \<and> counter1 = 24 \<and> explored1 (hash two_ends) = Some (- 6)) \<and>
        (case solve_step (frontier, explored(hash two_ends \<mapsto> - 8), counter) of
           Inl r \<Rightarrow> False
         | Inr (frontier1, explored1, counter1) \<Rightarrow>
             length frontier1 = 15 \<and> counter1 = 20 \<and> explored1 (hash two_ends) = Some (- 8)))"
  using initial_frontier_entry [of two_ends] two_ends_heuristic two_ends_revisit
  by (intro conjI)

end
